theory Spec2Isabelle
  imports Main "HOL-Library.Word"
begin

unbundle bit_operations_syntax

section \<open>Machine integers (crypto/types.h)\<close>

text \<open>
  The MikroC projects define \<open>uint8_t\<close>, \<open>uint16_t\<close> and \<open>uint32_t\<close> as the
  compiler's unsigned 8, 16 and 32 bit integers. Arithmetic on them wraps.
\<close>

type_synonym uint8_t = "8 word"
type_synonym uint16_t = "16 word"
type_synonym uint32_t = "32 word"

section \<open>The BlowFish32 cipher (crypto/blowfish.h)\<close>

text \<open>
  The library keeps five global pointers to the subkey tables;
  \<open>blowfish_setkeys\<close> stores them. The engine state is the record of the five
  tables the pointers refer to.
\<close>

record engine =
  key_p :: "uint16_t list"
  key_s1 :: "uint16_t list"
  key_s2 :: "uint16_t list"
  key_s3 :: "uint16_t list"
  key_s4 :: "uint16_t list"

definition blowfish_setkeys ::
  "uint16_t list \<Rightarrow> uint16_t list \<Rightarrow> uint16_t list \<Rightarrow> uint16_t list \<Rightarrow> uint16_t list \<Rightarrow> engine"
  where
  "blowfish_setkeys p s1 s2 s3 s4 =
     \<lparr>key_p = p, key_s1 = s1, key_s2 = s2, key_s3 = s3, key_s4 = s4\<rparr>"

text \<open>A loaded key has a P table of 18 words and four S tables of 16 words.\<close>

definition valid_key :: "engine \<Rightarrow> bool" where
  "valid_key e \<longleftrightarrow>
     length (key_p e) = 18 \<and> length (key_s1 e) = 16 \<and> length (key_s2 e) = 16 \<and>
     length (key_s3 e) = 16 \<and> length (key_s4 e) = 16"

text \<open>The helper macros. \<open>SWAP\<close> is the XOR swap of two variables.\<close>

definition SWAP :: "uint16_t \<times> uint16_t \<Rightarrow> uint16_t \<times> uint16_t" where
  "SWAP xy =
     (let x = fst xy; y = snd xy;
          x = x XOR y;
          y = y XOR x;
          x = x XOR y
      in (x, y))"

definition BIT16_LO :: "uint32_t \<Rightarrow> uint32_t" where
  "BIT16_LO x = drop_bit 0 x AND 0xFFFF"

definition BIT16_HI :: "uint32_t \<Rightarrow> uint32_t" where
  "BIT16_HI x = drop_bit 16 x AND 0xFFFF"

text \<open>
  The Feistel function: four nibbles of the input index the four S tables. On the
  microcontroller \<open>int\<close> has 16 bits, so the sums are taken modulo \<open>2 ^ 16\<close>.
\<close>

definition blowfish_feistel :: "engine \<Rightarrow> uint16_t \<Rightarrow> uint16_t" where
  "blowfish_feistel e data =
     (let d1 = unat (drop_bit 0 data AND 0x0F);
          d2 = unat (drop_bit 4 data AND 0x0F);
          d3 = unat (drop_bit 8 data AND 0x0F);
          d4 = unat (drop_bit 12 data AND 0x0F)
      in ((key_s1 e ! d1 + key_s2 e ! d2) XOR key_s3 e ! d3) + key_s4 e ! d4)"

text \<open>One pass of the body of the encryption loop, at index \<open>idx\<close>.\<close>

definition encrypt_round :: "engine \<Rightarrow> nat \<Rightarrow> uint16_t \<times> uint16_t \<Rightarrow> uint16_t \<times> uint16_t" where
  "encrypt_round e idx hl =
     (let data_hi = fst hl; data_lo = snd hl;
          data_hi = data_hi XOR key_p e ! idx;
          data_lo = data_lo XOR blowfish_feistel e data_hi
      in SWAP (data_hi, data_lo))"

definition blowfish_encrypt :: "engine \<Rightarrow> uint32_t \<Rightarrow> uint32_t" where
  "blowfish_encrypt e data =
     (let data_hi = (ucast (BIT16_HI data) :: uint16_t);
          data_lo = (ucast (BIT16_LO data) :: uint16_t);
          hl = fold (encrypt_round e) [0..<16] (data_hi, data_lo);
          hl = SWAP hl;
          data_hi = fst hl XOR key_p e ! 16;
          data_lo = snd hl XOR key_p e ! 17
      in push_bit 16 (ucast data_hi :: uint32_t) OR ucast data_lo)"

text \<open>One pass of the body of the decryption loop, at index \<open>idx\<close>.\<close>

definition decrypt_round :: "engine \<Rightarrow> nat \<Rightarrow> uint16_t \<times> uint16_t \<Rightarrow> uint16_t \<times> uint16_t" where
  "decrypt_round e idx hl =
     (let hl = SWAP hl;
          data_hi = fst hl; data_lo = snd hl;
          data_lo = data_lo XOR blowfish_feistel e data_hi;
          data_hi = data_hi XOR key_p e ! idx
      in (data_hi, data_lo))"

definition blowfish_decrypt :: "engine \<Rightarrow> uint32_t \<Rightarrow> uint32_t" where
  "blowfish_decrypt e data =
     (let data_hi = (ucast (BIT16_HI data) :: uint16_t);
          data_lo = (ucast (BIT16_LO data) :: uint16_t);
          data_hi = data_hi XOR key_p e ! 16;
          data_lo = data_lo XOR key_p e ! 17;
          hl = SWAP (data_hi, data_lo);
          hl = fold (decrypt_round e) (rev [0..<16]) hl
      in push_bit 16 (ucast (fst hl) :: uint32_t) OR ucast (snd hl))"

section \<open>The subkey generator (key_gen/key_gen.c)\<close>

text \<open>
  The generator is a program for the host computer. Its global arrays are the
  seed buffer \<open>arr_key\<close> (18 words of 16 bits, which \<open>get_input\<close> fills
  through a byte pointer, so it is kept here as its 36 bytes) and the five
  subkey tables, preloaded with hexadecimal digits of pi.
\<close>

record keygen =
  arr_key :: "uint8_t list"
  arr_p :: "uint16_t list"
  arr_s1 :: "uint16_t list"
  arr_s2 :: "uint16_t list"
  arr_s3 :: "uint16_t list"
  arr_s4 :: "uint16_t list"

definition keygen_init :: keygen where
  "keygen_init =
     \<lparr>arr_key = replicate 36 0,
      arr_p = [0x243F, 0x6A88, 0x85A3, 0x08D3, 0x1319, 0x8A2E, 0x0370, 0x7344, 0xA409,
               0x3822, 0x299F, 0x31D0, 0x082E, 0xFA98, 0xEC4E, 0x6C89, 0x4528, 0x21E6],
      arr_s1 = [0x38D0, 0x1377, 0xBE54, 0x66CF, 0x34E9, 0x0C6C, 0xC0AC, 0x29B7,
                0xC97C, 0x50DD, 0x3F84, 0xD5B5, 0xB547, 0x0917, 0x9216, 0xD5D9],
      arr_s2 = [0x8979, 0xD131, 0x0BA6, 0x98DF, 0xB5AC, 0x2FFD, 0x72DB, 0xD01A,
                0xDFB7, 0xB8E1, 0xAFED, 0x6A26, 0x7E96, 0xBA7C, 0x9045, 0xF12C],
      arr_s3 = [0x7F99, 0x24A1, 0x9947, 0xB391, 0x6CF7, 0x0801, 0xF2E2, 0x858E,
                0xFC16, 0x6369, 0x20D8, 0x7157, 0x4E69, 0xA458, 0xFEA3, 0xF493],
      arr_s4 = [0x3D7E, 0x0D95, 0x748F, 0x728E, 0xB658, 0x718B, 0xCD58, 0x8215,
                0x4AEE, 0x7B54, 0xA41D, 0xC25A, 0x59B5, 0x9C30, 0xD539, 0x2AF2]\<rparr>"

text \<open>The arrays have their declared sizes.\<close>

definition valid_arrays :: "keygen \<Rightarrow> bool" where
  "valid_arrays g \<longleftrightarrow>
     length (arr_key g) = 36 \<and> length (arr_p g) = 18 \<and> length (arr_s1 g) = 16 \<and>
     length (arr_s2 g) = 16 \<and> length (arr_s3 g) = 16 \<and> length (arr_s4 g) = 16"

subsection \<open>The generator's own copy of the cipher\<close>

text \<open>
  On the host \<open>int\<close> has 32 bits: the operands of the Feistel sum are promoted to
  \<open>int\<close>, the sum is taken there, and the return converts it to 16 bits.
\<close>

definition blowfish_feistel_kg :: "keygen \<Rightarrow> uint16_t \<Rightarrow> uint16_t" where
  "blowfish_feistel_kg g data =
     (let d1 = unat (ucast (drop_bit 0 data AND 0x0F) :: uint8_t);
          d2 = unat (ucast (drop_bit 4 data AND 0x0F) :: uint8_t);
          d3 = unat (ucast (drop_bit 8 data AND 0x0F) :: uint8_t);
          d4 = unat (ucast (drop_bit 12 data AND 0x0F) :: uint8_t)
      in ucast ((((ucast (arr_s1 g ! d1) :: 32 word) + ucast (arr_s2 g ! d2))
                  XOR ucast (arr_s3 g ! d3)) + ucast (arr_s4 g ! d4)))"

definition encrypt_round_kg :: "keygen \<Rightarrow> nat \<Rightarrow> uint16_t \<times> uint16_t \<Rightarrow> uint16_t \<times> uint16_t" where
  "encrypt_round_kg g idx hl =
     (let data_hi = fst hl; data_lo = snd hl;
          data_hi = data_hi XOR arr_p g ! idx;
          data_lo = data_lo XOR blowfish_feistel_kg g data_hi
      in SWAP (data_hi, data_lo))"

definition blowfish_encrypt_kg :: "keygen \<Rightarrow> uint32_t \<Rightarrow> uint32_t" where
  "blowfish_encrypt_kg g data =
     (let data_hi = (ucast (BIT16_HI data) :: uint16_t);
          data_lo = (ucast (BIT16_LO data) :: uint16_t);
          hl = fold (encrypt_round_kg g) [0..<16] (data_hi, data_lo);
          hl = SWAP hl;
          data_hi = fst hl XOR arr_p g ! 16;
          data_lo = snd hl XOR arr_p g ! 17
      in push_bit 16 (ucast data_hi :: uint32_t) OR ucast data_lo)"

subsection \<open>Reading the seed: \<open>get_input\<close>\<close>

text \<open>The character tests of the C library, in the C locale, on character codes.\<close>

definition isxdigit :: "char \<Rightarrow> bool" where
  "isxdigit c \<longleftrightarrow>
     (let n = (of_char c :: nat)
      in (48 \<le> n \<and> n \<le> 57) \<or> (65 \<le> n \<and> n \<le> 70) \<or> (97 \<le> n \<and> n \<le> 102))"

definition isalpha :: "char \<Rightarrow> bool" where
  "isalpha c \<longleftrightarrow>
     (let n = (of_char c :: nat) in (65 \<le> n \<and> n \<le> 90) \<or> (97 \<le> n \<and> n \<le> 122))"

definition tolower :: "char \<Rightarrow> int" where
  "tolower c =
     (let n = (of_char c :: int) in if 65 \<le> n \<and> n \<le> 90 then n + 32 else n)"

definition HEX2BIN :: "char \<Rightarrow> int" where
  "HEX2BIN x = (if isalpha x then 10 + tolower x - 97 else of_char x - 48)"

text \<open>
  \<open>strtok(line, "\r\n")\<close> skips leading delimiters and ends the string at the
  first delimiter after the token; with no token the line is left as it is.
\<close>

definition is_delim :: "char \<Rightarrow> bool" where
  "is_delim c \<longleftrightarrow> c = CHR 0x0D \<or> c = CHR 0x0A"

definition strtok_line :: "string \<Rightarrow> string" where
  "strtok_line raw =
     (let lead = takeWhile is_delim raw; rest = dropWhile is_delim raw
      in if rest = [] then raw else lead @ takeWhile (\<lambda>c. \<not> is_delim c) rest)"

text \<open>
  One pass of the parsing loop: the digit at \<open>idx % clen\<close> is shifted by 4 for an
  even \<open>idx\<close> and by 0 for an odd one, and XORed into byte \<open>(idx / 2) % klen\<close>.
\<close>

definition parse_step :: "string \<Rightarrow> nat \<Rightarrow> nat \<Rightarrow> uint8_t list \<Rightarrow> uint8_t list" where
  "parse_step line klen idx buf =
     (let clen = length line;
          shift = (if idx mod 2 \<noteq> 0 then 0 else 4);
          pos = (idx div 2) mod klen
      in buf[pos := buf ! pos XOR word_of_int (push_bit shift (HEX2BIN (line ! (idx mod clen))))])"

definition parse_key :: "string \<Rightarrow> uint8_t list" where
  "parse_key line =
     (let clen = length line; klen = 36
      in fold (parse_step line klen) [0..<max clen (klen * 2)] (replicate klen 0))"

datatype kg_error = Could_not_read_line

text \<open>
  \<open>get_input\<close> prompts until a line is a non-empty string of hexadecimal digits.
  The standard input is the list of the lines still to be read; at its end
  \<open>getline\<close> fails and the function returns \<open>-1\<close>.
\<close>

fun get_input :: "string list \<Rightarrow> keygen \<Rightarrow> kg_error + keygen" where
  "get_input [] g = Inl Could_not_read_line"
| "get_input (raw # rest) g =
     (let line = strtok_line raw;
          clen = length line;
          ok = (clen > 0 \<and> list_all isxdigit line);
          g = g\<lparr>arr_key := replicate 36 0\<rparr>
      in if ok then Inr (g\<lparr>arr_key := parse_key line\<rparr>) else get_input rest g)"

subsection \<open>The key schedule: \<open>blowfish_keygen\<close>\<close>

text \<open>
  \<open>arr_key[idx]\<close> reads two bytes of the seed buffer as one 16 bit word, low byte
  first (the host is little-endian).
\<close>

definition arr_key_word :: "keygen \<Rightarrow> nat \<Rightarrow> uint16_t" where
  "arr_key_word g idx =
     ucast (arr_key g ! (2 * idx)) OR push_bit 8 (ucast (arr_key g ! (2 * idx + 1)))"

text \<open>
  \<open>block\<close> is a signed 32 bit integer there, so \<open>BIT16_HI(block)\<close> shifts
  arithmetically before it masks.
\<close>

definition BIT16_HI_signed :: "uint32_t \<Rightarrow> uint32_t" where
  "BIT16_HI_signed x = signed_drop_bit 16 x AND 0xFFFF"

definition BIT16_LO_signed :: "uint32_t \<Rightarrow> uint32_t" where
  "BIT16_LO_signed x = signed_drop_bit 0 x AND 0xFFFF"

text \<open>
  The state of a run of the key schedule: the arrays, the running block, and the
  record of the calls of \<open>blowfish_encrypt\<close> made so far, each with its argument
  and its result.
\<close>

record kg_run =
  arrays :: keygen
  block :: uint32_t
  calls :: "(uint32_t \<times> uint32_t) list"

definition xor_seed_step :: "nat \<Rightarrow> keygen \<Rightarrow> keygen" where
  "xor_seed_step idx g = g\<lparr>arr_p := (arr_p g)[idx := arr_p g ! idx XOR arr_key_word g idx]\<rparr>"

definition keygen_p_step :: "nat \<Rightarrow> kg_run \<Rightarrow> kg_run" where
  "keygen_p_step idx st =
     (let g = arrays st;
          block' = blowfish_encrypt_kg g (block st);
          g = g\<lparr>arr_p := (arr_p g)[idx + 0 := ucast (BIT16_HI_signed block')]\<rparr>;
          g = g\<lparr>arr_p := (arr_p g)[idx + 1 := ucast (BIT16_LO_signed block')]\<rparr>
      in \<lparr>arrays = g, block = block', calls = calls st @ [(block st, block')]\<rparr>)"

text \<open>The \<open>switch\<close> on \<open>sidx\<close> selects the table that \<open>arr_sx\<close> points to.\<close>

definition arr_sx_update :: "nat \<Rightarrow> (uint16_t list \<Rightarrow> uint16_t list) \<Rightarrow> keygen \<Rightarrow> keygen" where
  "arr_sx_update sidx f g =
     (if sidx = 0 then g\<lparr>arr_s1 := f (arr_s1 g)\<rparr>
      else if sidx = 1 then g\<lparr>arr_s2 := f (arr_s2 g)\<rparr>
      else if sidx = 2 then g\<lparr>arr_s3 := f (arr_s3 g)\<rparr>
      else if sidx = 3 then g\<lparr>arr_s4 := f (arr_s4 g)\<rparr>
      else g)"

definition keygen_s_step :: "nat \<Rightarrow> nat \<Rightarrow> kg_run \<Rightarrow> kg_run" where
  "keygen_s_step sidx idx st =
     (let g = arrays st;
          block' = blowfish_encrypt_kg g (block st);
          g = arr_sx_update sidx (\<lambda>a. a[idx + 0 := ucast (BIT16_HI_signed block')]) g;
          g = arr_sx_update sidx (\<lambda>a. a[idx + 1 := ucast (BIT16_LO_signed block')]) g
      in \<lparr>arrays = g, block = block', calls = calls st @ [(block st, block')]\<rparr>)"

text \<open>
  The loops: \<open>idx\<close> runs over \<open>0, 1, .., 17\<close> in the first, over the even numbers
  below 18 in the second, and over the even numbers below 16 for each of the four
  values of \<open>sidx\<close> in the third.
\<close>

definition blowfish_keygen :: "keygen \<Rightarrow> kg_run" where
  "blowfish_keygen g =
     (let st = \<lparr>arrays = fold xor_seed_step [0..<18] g, block = 0, calls = []\<rparr>;
          st = fold keygen_p_step (map (\<lambda>i. 2 * i) [0..<9]) st;
          st = fold (\<lambda>sidx. fold (keygen_s_step sidx) (map (\<lambda>i. 2 * i) [0..<8])) [0..<4] st
      in st)"

text \<open>
  For the statements about the key schedule: the five tables in the order in which
  they are filled, the arrays whose five tables are cut from a list of 82 words
  in that order, and the two subkey words taken from one result of the cipher.
\<close>

definition flat :: "keygen \<Rightarrow> uint16_t list" where
  "flat g = arr_p g @ arr_s1 g @ arr_s2 g @ arr_s3 g @ arr_s4 g"

definition halves :: "uint32_t \<Rightarrow> uint16_t list" where
  "halves b = [ucast (BIT16_HI_signed b), ucast (BIT16_LO_signed b)]"

definition tables :: "keygen \<Rightarrow> uint16_t list \<Rightarrow> keygen" where
  "tables g xs =
     g\<lparr>arr_p := take 18 xs, arr_s1 := take 16 (drop 18 xs), arr_s2 := take 16 (drop 34 xs),
       arr_s3 := take 16 (drop 50 xs), arr_s4 := take 16 (drop 66 xs)\<rparr>"

text \<open>
  What holds after \<open>k\<close> calls of the cipher in a run that started from the arrays
  \<open>g0\<close>: the arrays have their sizes and the seed buffer of \<open>g0\<close>, the first
  \<open>2 * k\<close> words of the tables are the halves of the results so far and the other
  words are those of \<open>g0\<close>, each call but the first got the result of the one
  before it, the running block is the last result, and the result of each call is
  the encryption of its argument under the tables as they were at that call.
\<close>

definition keygen_inv :: "keygen \<Rightarrow> nat \<Rightarrow> kg_run \<Rightarrow> bool" where
  "keygen_inv g0 k st \<longleftrightarrow>
     valid_arrays (arrays st) \<and> arr_key (arrays st) = arr_key g0 \<and> length (calls st) = k \<and>
     take (2 * k) (flat (arrays st)) = concat (map (\<lambda>c. halves (snd c)) (calls st)) \<and>
     drop (2 * k) (flat (arrays st)) = drop (2 * k) (flat g0) \<and>
     map fst (calls st) = butlast (0 # map snd (calls st)) \<and>
     block st = last (0 # map snd (calls st)) \<and>
     (\<forall>j<k. snd (calls st ! j) =
        blowfish_encrypt_kg
          (tables g0 (concat (map (\<lambda>c. halves (snd c)) (take j (calls st)))
                        @ drop (2 * j) (flat g0)))
          (fst (calls st ! j)))"

section \<open>The checksum (crypto/crc.h)\<close>

text \<open>
  One pass of the inner loop over the bits of a data byte: the register is shifted
  left, the top bit of the data byte is shifted in, and the polynomial is XORed in
  when the register's old top bit was set.
\<close>

definition crc_data_bit :: "uint8_t \<times> uint8_t \<Rightarrow> uint8_t \<times> uint8_t" where
  "crc_data_bit cd =
     (let crc = fst cd; dat = snd cd;
          crc' = crc;
          crc = push_bit 1 crc;
          crc = (if dat AND 0x80 \<noteq> 0 then crc + 1 else crc);
          dat = push_bit 1 dat;
          crc = (if crc' AND 0x80 \<noteq> 0 then crc XOR 0x8D else crc)
      in (crc, dat))"

definition crc_data_byte :: "uint8_t list \<Rightarrow> nat \<Rightarrow> uint8_t \<Rightarrow> uint8_t" where
  "crc_data_byte data byte_idx crc =
     fst (fold (\<lambda>bit_idx. crc_data_bit) [0..<8] (crc, data ! byte_idx))"

definition crc_augment_bit :: "uint8_t \<Rightarrow> uint8_t" where
  "crc_augment_bit crc =
     (let crc' = crc;
          crc = push_bit 1 crc
      in if crc' AND 0x80 \<noteq> 0 then crc XOR 0x8D else crc)"

definition crc_ccitt :: "uint8_t list \<Rightarrow> nat \<Rightarrow> uint8_t" where
  "crc_ccitt data num =
     (let crc = fold (crc_data_byte data) [0..<num] 0xFF
      in fold (\<lambda>bit_idx. crc_augment_bit) [0..<8] crc)"

section \<open>Devices\<close>

text \<open>
  Both microcontroller programs act on an EEPROM and on output ports. A device is
  the content of its EEPROM together with the trace of the effects it has had on
  the outside, oldest first. The trace keeps the EEPROM writes, the bytes given to
  the Manchester encoder, the power pin of the radio module, the values written to
  the LED port, the texts and characters sent to the LCD, and the runs of the bolt
  motor. \<open>delay_ms\<close> only waits and is not recorded.
\<close>

datatype event =
    Eeprom_write nat uint8_t
  | Man_send uint8_t
  | Gpio_F4 bool
  | Port_D uint8_t
  | Lcd_const nat nat string
  | Lcd_chr nat nat char
  | Bolt_unlock

record device =
  eeprom :: "nat \<Rightarrow> uint8_t"
  trace :: "event list"

definition emit :: "event \<Rightarrow> device \<Rightarrow> device" where
  "emit ev d = d\<lparr>trace := trace d @ [ev]\<rparr>"

definition eeprom_read :: "nat \<Rightarrow> device \<Rightarrow> uint8_t" where
  "eeprom_read address d = eeprom d address"

definition eeprom_write :: "nat \<Rightarrow> uint8_t \<Rightarrow> device \<Rightarrow> device" where
  "eeprom_write address v d =
     d\<lparr>eeprom := (eeprom d)(address := v), trace := trace d @ [Eeprom_write address v]\<rparr>"

definition is_write :: "event \<Rightarrow> bool" where
  "is_write ev = (case ev of Eeprom_write a v \<Rightarrow> True | _ \<Rightarrow> False)"

definition is_send :: "event \<Rightarrow> bool" where
  "is_send ev = (case ev of Man_send b \<Rightarrow> True | _ \<Rightarrow> False)"

text \<open>
  The events that a run added to the trace of the device it started from, and the
  EEPROM writes among a list of events, each with its address and value.
\<close>

definition new_events :: "device \<Rightarrow> device \<Rightarrow> event list" where
  "new_events d d' = drop (length (trace d)) (trace d')"

fun writes_of :: "event list \<Rightarrow> (nat \<times> uint8_t) list" where
  "writes_of [] = []"
| "writes_of (Eeprom_write a v # evs) = (a, v) # writes_of evs"
| "writes_of (ev # evs) = writes_of evs"

text \<open>
  The MikroC compiler stores a 32 bit integer with its low byte first; the casts
  between \<open>uint32_t\<close> and byte pointers read and write that layout.
\<close>

definition native_bytes :: "uint32_t \<Rightarrow> uint8_t list" where
  "native_bytes x = map (\<lambda>idx. ucast (drop_bit (8 * idx) x)) [0..<4]"

definition native_word :: "uint8_t list \<Rightarrow> uint32_t" where
  "native_word bs =
     ucast (bs ! 0) OR push_bit 8 (ucast (bs ! 1)) OR push_bit 16 (ucast (bs ! 2))
       OR push_bit 24 (ucast (bs ! 3))"

definition FRAME_MARK :: uint8_t where
  "FRAME_MARK = 0x96"

section \<open>The transmitter\<close>

text \<open>
  \<open>transmit_code\<close> has a local array of six bytes, which is not initialised. The
  array is modelled with whatever the stack held there, and a store through an
  index outside the array leaves the array as it is and is recorded with its index
  and value.
\<close>

record frame_mem =
  data :: "uint8_t list"
  beyond :: "(nat \<times> uint8_t) list"

definition store_byte :: "nat \<Rightarrow> uint8_t \<Rightarrow> frame_mem \<Rightarrow> frame_mem" where
  "store_byte idx v m =
     (if idx < length (data m) then m\<lparr>data := (data m)[idx := v]\<rparr>
      else m\<lparr>beyond := beyond m @ [(idx, v)]\<rparr>)"

definition store_word :: "uint32_t \<Rightarrow> frame_mem \<Rightarrow> frame_mem" where
  "store_word x m = fold (\<lambda>idx. store_byte idx (native_bytes x ! idx)) [0..<4] m"

definition valid_message :: "uint8_t list \<Rightarrow> nat \<Rightarrow> bool" where
  "valid_message bs num = list_all (\<lambda>b. b \<noteq> FRAME_MARK) (take num bs)"

definition read_code :: "device \<Rightarrow> uint32_t" where
  "read_code d = native_word (map (\<lambda>idx. eeprom_read idx d) [0..<4])"

definition write_code :: "uint32_t \<Rightarrow> device \<Rightarrow> device" where
  "write_code code d = fold (\<lambda>idx. eeprom_write idx (native_bytes code ! idx)) [0..<4] d"

text \<open>
  The loop that forms the message runs until the six bytes are free of the frame
  marker. Nothing in the code bounds it, so the model counts its passes down from a
  given number and has no result when that number does not suffice.
\<close>

fun form_message :: "engine \<Rightarrow> nat \<Rightarrow> frame_mem \<Rightarrow> uint32_t \<Rightarrow> (uint32_t \<times> frame_mem) option" where
  "form_message e 0 m code = None"
| "form_message e (Suc fuel) m code =
     (let code = code + 1;
          m = store_word (blowfish_encrypt e code) m;
          m = store_byte 6 (crc_ccitt (data m) 5) m
      in if valid_message (data m) 6 then Some (code, m) else form_message e fuel m code)"

text \<open>One frame of the burst: the marker, then \<open>data[0]\<close> to \<open>data[5]\<close>.\<close>

definition send_frame :: "uint8_t list \<Rightarrow> device \<Rightarrow> device" where
  "send_frame bs d =
     fold (\<lambda>idx. emit (Man_send (bs ! idx))) [0..<6] (emit (Man_send FRAME_MARK) d)"

fun send_burst :: "uint8_t list \<Rightarrow> nat \<Rightarrow> device \<Rightarrow> device" where
  "send_burst bs 0 d = d"
| "send_burst bs (Suc cnt) d = send_burst bs cnt (send_frame bs d)"

text \<open>
  \<open>CHAN_NUM\<close> is fixed when the transmitter is flashed; it is an argument here, and
  so are the bytes that the stack holds where \<open>data\<close> is placed.
\<close>

definition transmit_code ::
  "engine \<Rightarrow> uint8_t \<Rightarrow> nat \<Rightarrow> uint8_t list \<Rightarrow> uint32_t \<Rightarrow> nat \<Rightarrow> device
     \<Rightarrow> (uint32_t \<times> frame_mem \<times> device) option"
  where
  "transmit_code e CHAN_NUM fuel stack code cnt d =
     (let d = emit (Gpio_F4 True) d;
          m = \<lparr>data = stack, beyond = []\<rparr>;
          m = store_byte 5 CHAN_NUM m
      in case form_message e fuel m code of
           None \<Rightarrow> None
         | Some (code, m) \<Rightarrow>
             (let d = send_burst (data m) cnt d;
                  d = emit (Gpio_F4 False) d
              in Some (code, m, d)))"

text \<open>
  One pass of the loop of \<open>main\<close> after the device woke up: when the button pin
  \<open>GPIO.F2\<close> reads 1, the code is transmitted 16 times and then written back.
\<close>

definition main_wake ::
  "engine \<Rightarrow> uint8_t \<Rightarrow> nat \<Rightarrow> uint8_t list \<Rightarrow> bool \<Rightarrow> uint32_t \<times> device
     \<Rightarrow> (uint32_t \<times> device) option"
  where
  "main_wake e CHAN_NUM fuel stack gpio_f2 cd =
     (let code = fst cd; d = snd cd
      in if gpio_f2 then
           (case transmit_code e CHAN_NUM fuel stack code 16 d of
              None \<Rightarrow> None
            | Some (code, m, d) \<Rightarrow> Some (code, write_code code d))
         else Some (code, d))"

text \<open>
  The six bytes that the array of \<open>transmit_code\<close> holds after the pass of the
  loop for a code: the encrypted code in bytes 0 to 3, what the stack held in byte
  4, which is never written, and the channel number in byte 5.
\<close>

definition frame_for :: "engine \<Rightarrow> uint8_t list \<Rightarrow> uint8_t \<Rightarrow> uint32_t \<Rightarrow> uint8_t list" where
  "frame_for e stack CHAN_NUM code = native_bytes (blowfish_encrypt e code) @ [stack ! 4, CHAN_NUM]"

text \<open>
  Two orders of the radio and the EEPROM in a list of events: no byte is sent before
  the first EEPROM write, and no byte is sent from the first EEPROM write on.
\<close>

definition write_precedes_sends :: "event list \<Rightarrow> bool" where
  "write_precedes_sends evs \<longleftrightarrow>
     list_all (\<lambda>ev. \<not> is_send ev) (takeWhile (\<lambda>ev. \<not> is_write ev) evs)"

definition sends_precede_write :: "event list \<Rightarrow> bool" where
  "sends_precede_write evs \<longleftrightarrow>
     list_all (\<lambda>ev. \<not> is_send ev) (dropWhile (\<lambda>ev. \<not> is_write ev) evs)"

section \<open>The receiver (receiver/receiver.c)\<close>

definition text_cmd1 :: string where "text_cmd1 = ''Command''"
definition text_res1 :: string where "text_res1 = ''Channel 0x0X Reset''"
definition text_res2 :: string where "text_res2 = ''Master Reset''"
definition text_ttl1 :: string where "text_ttl1 = ''Invalid PassCode''"
definition text_ttl2 :: string where "text_ttl2 = ''Store PassCode''"
definition text_lbl1 :: string where "text_lbl1 = ''Code:''"
definition text_lbl2 :: string where "text_lbl2 = ''Entry Key:''"
definition text_lbl3 :: string where "text_lbl3 = ''Channel:''"
definition text_lbl4 :: string where "text_lbl4 = ''Abort?''"
definition text_lbl5 :: string where "text_lbl5 = ''Completed!''"
definition text_lbl6 :: string where "text_lbl6 = ''Canceled!''"

datatype command = CMD_NORMAL | CMD_STORE_CHAN | CMD_RESET_CHAN | CMD_RESET_ALL

definition ROLLING_WINDOW :: uint32_t where
  "ROLLING_WINDOW = 0x0400"

definition MAX_CHANS :: nat where
  "MAX_CHANS = 16"

definition ADDRESS_CODE :: nat where
  "ADDRESS_CODE = 0x00"

definition ADDRESS_STATE :: nat where
  "ADDRESS_STATE = MAX_CHANS * 4"

text \<open>
  The channel argument is a signed 8 bit integer in the code, \<open>-1\<close> standing for
  all channels; it is an \<open>int\<close> here. The addresses are computed in 16 bits,
  where they do not overflow.
\<close>

definition read_channel_state :: "int \<Rightarrow> device \<Rightarrow> uint8_t" where
  "read_channel_state chan d = eeprom_read (nat (int ADDRESS_STATE + chan)) d"

definition read_channel_code :: "int \<Rightarrow> device \<Rightarrow> uint32_t" where
  "read_channel_code chan d =
     (let offset = nat (int ADDRESS_CODE + chan * 4)
      in native_word (map (\<lambda>idx. eeprom_read (offset + idx) d) [0..<4]))"

definition write_channel_state :: "int \<Rightarrow> uint8_t \<Rightarrow> device \<Rightarrow> device" where
  "write_channel_state chan state d = eeprom_write (nat (int ADDRESS_STATE + chan)) state d"

definition write_channel_code :: "int \<Rightarrow> uint32_t \<Rightarrow> device \<Rightarrow> device" where
  "write_channel_code chan code d =
     (let offset = nat (int ADDRESS_CODE + chan * 4)
      in fold (\<lambda>idx. eeprom_write (offset + idx) (native_bytes code ! idx)) [0..<4] d)"

definition lcd_const :: "nat \<Rightarrow> nat \<Rightarrow> string \<Rightarrow> device \<Rightarrow> device" where
  "lcd_const row col text d = emit (Lcd_const row col text) d"

definition lcd_chr :: "nat \<Rightarrow> nat \<Rightarrow> char \<Rightarrow> device \<Rightarrow> device" where
  "lcd_chr row col c d = emit (Lcd_chr row col c) d"

definition lcd_hex :: "nat \<Rightarrow> nat \<Rightarrow> int \<Rightarrow> device \<Rightarrow> device" where
  "lcd_hex row col val d =
     lcd_chr row col (char_of (if val < 10 then 48 + val else 65 + val - 10)) d"

definition lcd_hexdump :: "nat \<Rightarrow> nat \<Rightarrow> uint8_t list \<Rightarrow> nat \<Rightarrow> device \<Rightarrow> device" where
  "lcd_hexdump row col bs num d =
     fold (\<lambda>idx d.
             lcd_hex row (col + 2 * idx + 1) (uint (drop_bit 4 (bs ! idx) AND 0x0F))
               (lcd_hex row (col + 2 * idx) (uint (drop_bit 0 (bs ! idx) AND 0x0F)) d))
          [0..<num] d"

definition port_d :: "uint8_t \<Rightarrow> device \<Rightarrow> device" where
  "port_d v d = emit (Port_D v) d"

definition bolt_unlock :: "device \<Rightarrow> device" where
  "bolt_unlock d = emit Bolt_unlock d"

text \<open>
  \<open>process_load\<close> and \<open>process_store\<close> also dump four bytes read through the
  code converted to a pointer; what lies at that address is not part of the
  model, and this one dump is left out.
\<close>

definition process_load :: "uint8_t list \<Rightarrow> uint32_t \<Rightarrow> int \<Rightarrow> device \<Rightarrow> device" where
  "process_load bs code chan d =
     (let invalid = False;
          invalid = (invalid \<or> read_channel_state chan d \<noteq> 0xFF);
          invalid = (invalid \<or> code - read_channel_code chan d \<ge> ROLLING_WINDOW);
          d = (if invalid then lcd_const 1 3 text_ttl1 (port_d 0x30 d)
               else lcd_chr 1 4 CHR ''V'' (lcd_chr 1 3 CHR '' '' (lcd_chr 1 2 CHR '' ''
                      (lcd_const 1 2 text_ttl1 (port_d 0x50 d)))));
          d = lcd_const 2 1 text_lbl1 d;
          d = lcd_hexdump 2 9 bs 6 d;
          d = lcd_const 3 1 text_lbl2 d;
          d = lcd_const 4 1 text_lbl3 d;
          d = lcd_chr 4 19 CHR ''0'' d;
          d = lcd_hex 4 20 chan d
      in if invalid then d
         else bolt_unlock (write_channel_code chan (code + 1) d))"

definition process_store :: "uint8_t list \<Rightarrow> uint32_t \<Rightarrow> int \<Rightarrow> device \<Rightarrow> device" where
  "process_store bs code chan d =
     (let d = port_d 0x90 d;
          d = lcd_const 1 6 text_cmd1 d;
          d = lcd_chr 1 14 CHR ''0'' d;
          d = lcd_chr 1 15 CHR ''1'' d;
          d = lcd_const 2 4 text_ttl2 d;
          d = lcd_const 3 1 text_lbl2 d;
          d = lcd_const 4 1 text_lbl3 d;
          d = lcd_chr 4 19 CHR ''0'' d;
          d = lcd_hex 4 20 chan d;
          d = write_channel_code chan (code + 1) d;
          d = write_channel_state chan 0xFF d
      in d)"

text \<open>
  The abort countdown. After each second the two command pins \<open>PORTD.F0\<close> and
  \<open>PORTD.F1\<close> are read; \<open>pins idx\<close> is what they read in the pass that shows
  \<open>idx\<close> on the display.
\<close>

function reset_countdown ::
  "(int \<Rightarrow> bool \<times> bool) \<Rightarrow> int \<Rightarrow> bool \<Rightarrow> device \<Rightarrow> bool \<times> device"
  where
  "reset_countdown pins idx abort d =
     (if idx \<ge> 0 \<and> \<not> abort
      then reset_countdown pins (idx - 1)
             (fst (pins idx) = False \<and> snd (pins idx) = False) (lcd_hex 4 11 idx d)
      else (abort, d))"
  by pat_completeness auto
termination
  by (relation "measure (\<lambda>(pins, idx, abort, d). nat (idx + 1))") auto

declare reset_countdown.simps [simp del]

definition process_reset :: "int \<Rightarrow> (int \<Rightarrow> bool \<times> bool) \<Rightarrow> device \<Rightarrow> device" where
  "process_reset chan pins d =
     (let d = port_d 0x50 d;
          d = lcd_const 1 6 text_cmd1 d;
          d = lcd_chr 1 14 CHR ''1'' d;
          d = lcd_chr 1 15 (if chan = -1 then CHR ''1'' else CHR ''0'') d;
          d = (if chan \<ge> 0 then lcd_hex 2 13 chan (lcd_const 2 2 text_res1 d)
               else lcd_const 2 5 text_res2 d);
          d = lcd_const 3 8 text_lbl4 d;
          d = lcd_chr 4 10 CHR ''0'' d;
          ad = reset_countdown pins 5 False d;
          abort = fst ad; d = snd ad;
          d = lcd_chr 4 10 CHR '' '' d;
          d = lcd_chr 4 11 CHR '' '' d;
          d = (if abort then
                 (if chan \<ge> 0 then write_channel_state chan 0x00 d
                  else fold (\<lambda>idx. write_channel_state (int idx) 0x00) [0..<MAX_CHANS] d)
               else d);
          d = (if abort then lcd_const 3 6 text_lbl6 (port_d 0x30 d)
               else lcd_const 3 6 text_lbl5 (port_d 0x90 d))
      in d)"

text \<open>
  \<open>process_code\<close> takes the six bytes of a message that passed the checksum,
  reads the command from the two command pins (\<open>f0\<close> and \<open>f1\<close> are what they
  read then), and runs it.
\<close>

definition get_command :: "bool \<Rightarrow> bool \<Rightarrow> command" where
  "get_command f0 f1 =
     (if \<not> f0 \<and> f1 then CMD_STORE_CHAN
      else if f0 \<and> \<not> f1 then CMD_RESET_CHAN
      else if f0 \<and> f1 then CMD_RESET_ALL
      else CMD_NORMAL)"

definition process_code ::
  "engine \<Rightarrow> uint8_t list \<Rightarrow> bool \<times> bool \<Rightarrow> (int \<Rightarrow> bool \<times> bool) \<Rightarrow> device \<Rightarrow> device"
  where
  "process_code e bs f pins d =
     (let code = native_word bs;
          chan = int (unat (bs ! 4) mod MAX_CHANS);
          code = blowfish_decrypt e code;
          cmd = get_command (fst f) (snd f);
          d = (if cmd = CMD_NORMAL then process_load bs code chan d
               else if cmd = CMD_STORE_CHAN then process_store bs code chan d
               else if cmd = CMD_RESET_CHAN \<or> cmd = CMD_RESET_ALL
                 then process_reset (if cmd = CMD_RESET_ALL then -1 else chan) pins d
               else d)
      in port_d 0x00 d)"

text \<open>The receiver accepts a frame when the checksum of bytes 0 to 4 is byte 5.\<close>

definition crc_ok :: "uint8_t list \<Rightarrow> bool" where
  "crc_ok bs \<longleftrightarrow> crc_ccitt bs 5 = bs ! 5"

section \<open>Test data\<close>

text \<open>
  The key file \<open>key.h\<close> is written by the generator and is not fixed by the
  programs. The concrete runs below load the engine with the tables that the
  generator starts from.
\<close>

definition loaded :: "keygen \<Rightarrow> engine" where
  "loaded g = blowfish_setkeys (arr_p g) (arr_s1 g) (arr_s2 g) (arr_s3 g) (arr_s4 g)"

definition pi_engine :: engine where
  "pi_engine = loaded keygen_init"

text \<open>
  A transmitter with a cleared EEPROM, and the bytes that the stack holds where
  \<open>transmit_code\<close> places its array.
\<close>

definition tx_device :: device where
  "tx_device = \<lparr>eeprom = (\<lambda>a. 0), trace = []\<rparr>"

definition tx_stack :: "uint8_t list" where
  "tx_stack = [0xAA, 0xAA, 0xAA, 0xAA, 0xAA, 0xAA]"

text \<open>
  A receiver whose 16 channels are all enrolled, with last code 100 on channel 3
  and 0 on the others, and a message body for the display.
\<close>

definition rx_device :: device where
  "rx_device = \<lparr>eeprom = (\<lambda>a. if a < 64 then 0 else 0xFF)(12 := 100), trace = []\<rparr>"

definition rx_bytes :: "uint8_t list" where
  "rx_bytes = [0x15, 0x52, 0x1B, 0xB1, 0x03, 0x00]"

section \<open>Properties of the cipher\<close>

lemma SWAP_eq: "SWAP p = (snd p, fst p)"
  by (simp add: SWAP_def Let_def bit_eq_iff bit_xor_iff) blast

lemma decrypt_encrypt_round: "decrypt_round e i (encrypt_round e i hl) = hl"
  by (cases hl) (simp add: decrypt_round_def encrypt_round_def SWAP_eq Let_def xor.assoc)

lemma fold_rounds_inverse:
  "fold (decrypt_round e) (rev xs) (fold (encrypt_round e) xs hl) = hl"
  by (induction xs arbitrary: hl) (simp_all add: decrypt_encrypt_round)

lemma mask16_32: "(0xFFFF :: uint32_t) = mask 16"
  by (simp add: mask_eq_exp_minus_1)

lemma hi_of_join:
  "(ucast (BIT16_HI (push_bit 16 (ucast h :: uint32_t) OR ucast l)) :: uint16_t) = h"
  for h l :: uint16_t
  unfolding BIT16_HI_def mask16_32
  by (rule bit_word_eqI) (auto simp add: bit_simps dest: bit_imp_le_length)

lemma lo_of_join:
  "(ucast (BIT16_LO (push_bit 16 (ucast h :: uint32_t) OR ucast l)) :: uint16_t) = l"
  for h l :: uint16_t
  unfolding BIT16_LO_def mask16_32
  by (rule bit_word_eqI) (auto simp add: bit_simps)

lemma join_of_halves:
  "push_bit 16 (ucast (ucast (BIT16_HI x) :: uint16_t) :: uint32_t)
     OR ucast (ucast (BIT16_LO x) :: uint16_t) = x"
  unfolding BIT16_LO_def BIT16_HI_def mask16_32
  by (rule bit_word_eqI) (auto simp add: bit_simps)

lemma pi_engine_valid: "valid_key pi_engine"
  by (simp add: valid_key_def pi_engine_def loaded_def blowfish_setkeys_def keygen_init_def)

text \<open>
  Claim C5. For every 32 bit block and every loaded key, with a P table of 18
  words and S tables of 16 words, decrypting the encrypted block gives the block
  back.
\<close>

theorem C5_decrypt_encrypt:
  assumes "valid_key e"
  shows "blowfish_decrypt e (blowfish_encrypt e x) = x"
  unfolding blowfish_decrypt_def blowfish_encrypt_def Let_def
  by (simp add: hi_of_join lo_of_join SWAP_eq fold_rounds_inverse join_of_halves
      split_beta xor.assoc)

theorem C5_decrypt_encrypt_witness:
  "valid_key pi_engine \<and> blowfish_decrypt pi_engine (blowfish_encrypt pi_engine 1) = 1"
  using C5_decrypt_encrypt [OF pi_engine_valid, of 1] pi_engine_valid by simp

subsection \<open>The generator's copy\<close>

lemma nibble_index:
  "unat (ucast (drop_bit n w AND 0x0F) :: uint8_t) = unat (drop_bit n w AND 0x0F)"
  for w :: uint16_t
proof -
  have "(0x0F :: uint16_t) = mask 4"
    by (simp add: mask_eq_exp_minus_1)
  then have "drop_bit n w AND 0x0F = take_bit 4 (drop_bit n w)"
    by (simp add: take_bit_eq_mask)
  then show ?thesis
    by (simp add: unsigned_ucast_eq unsigned_take_bit_eq)
qed

lemma down_wi: "(ucast (word_of_int z :: 32 word) :: uint16_t) = word_of_int z"
  by (rule ucast_down_wi) (simp add: is_down)

lemma down_add: "(ucast (x + y) :: uint16_t) = ucast x + ucast y" for x y :: "32 word"
proof -
  have "(ucast (x + y) :: uint16_t) = ucast (word_of_int (uint x + uint y) :: 32 word)"
    by simp
  also have "\<dots> = word_of_int (uint x + uint y)"
    by (rule down_wi)
  also have "\<dots> = word_of_int (uint x) + word_of_int (uint y)"
    by simp
  also have "\<dots> = ucast (word_of_int (uint x) :: 32 word) + ucast (word_of_int (uint y) :: 32 word)"
    by (simp only: down_wi)
  finally show ?thesis
    by simp
qed

lemma down_xor: "(ucast (x XOR y) :: uint16_t) = ucast x XOR ucast y" for x y :: "32 word"
  by (rule bit_word_eqI) (auto simp add: bit_simps)

lemma down_up: "(ucast (ucast a :: 32 word) :: uint16_t) = a" for a :: uint16_t
  by (rule bit_word_eqI) (auto simp add: bit_simps)

lemma feistel_sum:
  "(ucast ((((ucast a :: 32 word) + ucast b) XOR ucast c) + ucast d) :: uint16_t)
     = ((a + b) XOR c) + d"
  for a b c d :: uint16_t
  by (simp only: down_add down_xor down_up)

lemma loaded_sel:
  "key_p (loaded g) = arr_p g" "key_s1 (loaded g) = arr_s1 g" "key_s2 (loaded g) = arr_s2 g"
  "key_s3 (loaded g) = arr_s3 g" "key_s4 (loaded g) = arr_s4 g"
  by (simp_all add: loaded_def blowfish_setkeys_def)

lemma feistel_kg_eq: "blowfish_feistel_kg g w = blowfish_feistel (loaded g) w"
  unfolding blowfish_feistel_kg_def blowfish_feistel_def Let_def
  by (simp only: nibble_index feistel_sum loaded_sel)

lemma round_kg_eq: "encrypt_round_kg g = encrypt_round (loaded g)"
  by (rule ext)+ (simp add: encrypt_round_kg_def encrypt_round_def feistel_kg_eq loaded_sel)

lemma encrypt_kg_eq: "blowfish_encrypt_kg g x = blowfish_encrypt (loaded g) x"
  by (simp add: blowfish_encrypt_kg_def blowfish_encrypt_def round_kg_eq loaded_sel)

text \<open>
  Claim C9. The generator's own \<open>blowfish_feistel\<close> and \<open>blowfish_encrypt\<close>,
  which work on its arrays, compute the same results as the functions of the
  library when the library holds the tables of those arrays, for every input.
\<close>

theorem C9_generator_cipher_agrees:
  "blowfish_feistel_kg g w =
     blowfish_feistel (blowfish_setkeys (arr_p g) (arr_s1 g) (arr_s2 g) (arr_s3 g) (arr_s4 g)) w
   \<and> blowfish_encrypt_kg g x =
     blowfish_encrypt (blowfish_setkeys (arr_p g) (arr_s1 g) (arr_s2 g) (arr_s3 g) (arr_s4 g)) x"
  using feistel_kg_eq [of g w] encrypt_kg_eq [of g x] by (simp add: loaded_def)

section \<open>Properties of the devices\<close>

lemma upt4: "[0..<4] = [0, 1, 2, 3]"
  by (simp add: upt_rec)

lemma upt6: "[0..<6] = [0, 1, 2, 3, 4, 5]"
  by (simp add: upt_rec)

lemma writes_of_append: "writes_of (xs @ ys) = writes_of xs @ writes_of ys"
  by (induction xs rule: writes_of.induct) simp_all

lemma writes_of_map:
  "writes_of (map (\<lambda>i. Eeprom_write (f i) (g i)) xs) = map (\<lambda>i. (f i, g i)) xs"
  by (induction xs) simp_all

lemma emit_sel: "eeprom (emit ev d) = eeprom d" "trace (emit ev d) = trace d @ [ev]"
  by (simp_all add: emit_def)

lemma eeprom_write_sel:
  "eeprom (eeprom_write a v d) = (eeprom d)(a := v)"
  "trace (eeprom_write a v d) = trace d @ [Eeprom_write a v]"
  by (simp_all add: eeprom_write_def)

lemmas lcd_defs = lcd_const_def lcd_chr_def lcd_hex_def port_d_def bolt_unlock_def

lemma new_events_append: "trace d' = trace d @ evs \<Longrightarrow> new_events d d' = evs"
  by (simp add: new_events_def)

lemma join_bytes:
  "ucast (ucast x :: uint8_t) OR push_bit 8 (ucast (ucast (drop_bit 8 x) :: uint8_t))
     OR push_bit 16 (ucast (ucast (drop_bit 16 x) :: uint8_t))
     OR push_bit 24 (ucast (ucast (drop_bit 24 x) :: uint8_t)) = x"
  (is "?w = x") for x :: uint32_t
proof (rule bit_word_eqI)
  fix n
  assume "n < LENGTH(32)"
  then consider "n < 8" | "8 \<le> n" "n < 16" | "16 \<le> n" "n < 24" | "24 \<le> n" "n < 32"
    by fastforce
  then show "bit ?w n = bit x n"
    by cases (auto simp add: bit_simps)
qed

lemma native_word_bytes: "native_word (native_bytes x) = x"
  using join_bytes [of x] by (simp add: native_word_def native_bytes_def upt4)

lemma write_channel_code_trace:
  "trace (write_channel_code chan code d) =
     trace d @ map (\<lambda>idx. Eeprom_write (nat (int ADDRESS_CODE + chan * 4) + idx)
                            (native_bytes code ! idx)) [0..<4]"
  by (simp add: write_channel_code_def upt4 eeprom_write_sel Let_def)

lemma read_write_channel_code:
  "read_channel_code chan (write_channel_code chan code d) = code"
proof -
  have "map (\<lambda>idx. eeprom_read (nat (int ADDRESS_CODE + chan * 4) + idx)
                     (write_channel_code chan code d)) [0..<4] = native_bytes code"
    by (simp add: write_channel_code_def upt4 eeprom_read_def eeprom_write_sel
        native_bytes_def Let_def)
  then show ?thesis
    by (simp add: read_channel_code_def native_word_bytes)
qed

subsection \<open>The normal command\<close>

lemma lcd_hexdump_eeprom: "eeprom (lcd_hexdump row col bs num d) = eeprom d"
  unfolding lcd_hexdump_def
  by (induction num arbitrary: d) (simp_all add: lcd_defs emit_sel)

lemma lcd_hexdump_trace:
  "\<exists>evs. trace (lcd_hexdump row col bs num d) = trace d @ evs \<and> writes_of evs = []
     \<and> Bolt_unlock \<notin> set evs"
  unfolding lcd_hexdump_def
proof (induction num arbitrary: d)
  case 0
  then show ?case by simp
next
  case (Suc num)
  then obtain evs where
    "trace (fold (\<lambda>idx d.
             lcd_hex row (col + 2 * idx + 1) (uint (drop_bit 4 (bs ! idx) AND 0x0F))
               (lcd_hex row (col + 2 * idx) (uint (drop_bit 0 (bs ! idx) AND 0x0F)) d))
          [0..<num] d) = trace d @ evs"
    "writes_of evs = []" "Bolt_unlock \<notin> set evs"
    by blast
  then show ?case
    by (simp add: lcd_defs emit_sel writes_of_append)
qed

lemma process_load_invalid:
  assumes "read_channel_state chan d \<noteq> 0xFF \<or> code - read_channel_code chan d \<ge> ROLLING_WINDOW"
  shows "eeprom (process_load bs code chan d) = eeprom d"
    and "\<exists>evs. trace (process_load bs code chan d) = trace d @ evs \<and> writes_of evs = []
           \<and> Bolt_unlock \<notin> set evs"
proof -
  let ?d1 = "lcd_const 2 1 text_lbl1 (lcd_const 1 3 text_ttl1 (port_d 0x30 d))"
  have eq: "process_load bs code chan d =
      lcd_hex 4 20 chan (lcd_chr 4 19 CHR ''0'' (lcd_const 4 1 text_lbl3
        (lcd_const 3 1 text_lbl2 (lcd_hexdump 2 9 bs 6 ?d1))))"
    using assms by (simp add: process_load_def Let_def)
  show "eeprom (process_load bs code chan d) = eeprom d"
    unfolding eq by (simp add: lcd_defs emit_sel lcd_hexdump_eeprom)
  obtain evs where "trace (lcd_hexdump 2 9 bs 6 ?d1) = trace ?d1 @ evs" "writes_of evs = []"
      "Bolt_unlock \<notin> set evs"
    using lcd_hexdump_trace by blast
  then show "\<exists>evs. trace (process_load bs code chan d) = trace d @ evs \<and> writes_of evs = []
      \<and> Bolt_unlock \<notin> set evs"
    unfolding eq by (simp add: lcd_defs emit_sel writes_of_append)
qed

lemma process_load_valid:
  assumes "\<not> (read_channel_state chan d \<noteq> 0xFF \<or> code - read_channel_code chan d \<ge> ROLLING_WINDOW)"
  shows "\<exists>d1 evs. eeprom d1 = eeprom d \<and> trace d1 = trace d @ evs \<and>
           process_load bs code chan d = bolt_unlock (write_channel_code chan (code + 1) d1)"
proof -
  let ?d1 = "lcd_const 2 1 text_lbl1 (lcd_chr 1 4 CHR ''V'' (lcd_chr 1 3 CHR '' ''
               (lcd_chr 1 2 CHR '' '' (lcd_const 1 2 text_ttl1 (port_d 0x50 d)))))"
  let ?d2 = "lcd_hex 4 20 chan (lcd_chr 4 19 CHR ''0'' (lcd_const 4 1 text_lbl3
               (lcd_const 3 1 text_lbl2 (lcd_hexdump 2 9 bs 6 ?d1))))"
  have eq: "process_load bs code chan d = bolt_unlock (write_channel_code chan (code + 1) ?d2)"
    using assms by (simp add: process_load_def Let_def)
  have "eeprom ?d2 = eeprom d"
    by (simp add: lcd_defs emit_sel lcd_hexdump_eeprom)
  moreover obtain evs where "trace (lcd_hexdump 2 9 bs 6 ?d1) = trace ?d1 @ evs"
    using lcd_hexdump_trace by blast
  then have "\<exists>evs. trace ?d2 = trace d @ evs"
    by (simp add: lcd_defs emit_sel)
  ultimately show ?thesis
    using eq by blast
qed

lemma window_test:
  "code - last \<ge> ROLLING_WINDOW \<longleftrightarrow> \<not> (uint code - uint last) mod 2 ^ 32 < 1024"
  for code last :: uint32_t
proof -
  have "uint (code - last) = (uint code - uint last) mod 2 ^ 32"
    by (simp add: uint_word_ariths)
  moreover have "code - last \<ge> ROLLING_WINDOW \<longleftrightarrow> 1024 \<le> uint (code - last)"
    by (simp add: ROLLING_WINDOW_def word_le_def)
  ultimately show ?thesis
    by auto
qed

lemma rx_device_read:
  "read_channel_state 3 rx_device = 0xFF" "read_channel_code 3 rx_device = 100"
  by (simp_all add: rx_device_def read_channel_state_def read_channel_code_def eeprom_read_def
      ADDRESS_STATE_def ADDRESS_CODE_def MAX_CHANS_def native_word_def upt4)

text \<open>
  Claim C4. A normal command is accepted, and the bolt is run, exactly when the
  stored enrollment flag of the channel is \<open>0xFF\<close> and
  \<open>(code - last_code) mod 2 ^ 32\<close> is below 1024. When it is accepted, the stored
  code of the channel becomes \<open>code + 1\<close>. When it is rejected, the EEPROM is not
  written and keeps its content.
\<close>

theorem C4_normal_command:
  assumes "0 \<le> chan" "chan < int MAX_CHANS"
  shows "let accepted = (read_channel_state chan d = 0xFF \<and>
                          (uint code - uint (read_channel_code chan d)) mod 2 ^ 32 < 1024);
             d' = process_load bs code chan d
         in (Bolt_unlock \<in> set (new_events d d') \<longleftrightarrow> accepted)
          \<and> (accepted \<longrightarrow> read_channel_code chan d' = code + 1)
          \<and> (\<not> accepted \<longrightarrow> eeprom d' = eeprom d \<and> writes_of (new_events d d') = [])"
proof (cases "read_channel_state chan d \<noteq> 0xFF \<or> code - read_channel_code chan d \<ge> ROLLING_WINDOW")
  case True
  then obtain evs where evs: "trace (process_load bs code chan d) = trace d @ evs"
      "writes_of evs = []" "Bolt_unlock \<notin> set evs"
    using process_load_invalid(2) by blast
  from True have "\<not> (read_channel_state chan d = 0xFF \<and>
      (uint code - uint (read_channel_code chan d)) mod 2 ^ 32 < 1024)"
    using window_test by blast
  with True evs show ?thesis
    by (auto simp add: Let_def new_events_append process_load_invalid(1))
next
  case False
  then obtain d1 evs where d1: "eeprom d1 = eeprom d" "trace d1 = trace d @ evs"
      "process_load bs code chan d = bolt_unlock (write_channel_code chan (code + 1) d1)"
    using process_load_valid [of chan d code bs] by blast
  have tr: "trace (process_load bs code chan d) = trace d @
      (evs @ map (\<lambda>idx. Eeprom_write (nat (int ADDRESS_CODE + chan * 4) + idx)
                            (native_bytes (code + 1) ! idx)) [0..<4] @ [Bolt_unlock])"
    by (simp add: d1 bolt_unlock_def emit_sel write_channel_code_trace)
  have "read_channel_code chan (process_load bs code chan d) = code + 1"
  proof -
    have "read_channel_code chan (bolt_unlock (write_channel_code chan (code + 1) d1))
        = read_channel_code chan (write_channel_code chan (code + 1) d1)"
      by (simp add: read_channel_code_def eeprom_read_def bolt_unlock_def emit_sel Let_def)
    then show ?thesis
      by (simp add: d1(3) read_write_channel_code)
  qed
  moreover have "Bolt_unlock \<in> set (new_events d (process_load bs code chan d))"
    by (simp add: new_events_append [OF tr])
  moreover from False have "read_channel_state chan d = 0xFF \<and>
      (uint code - uint (read_channel_code chan d)) mod 2 ^ 32 < 1024"
    using window_test by blast
  ultimately show ?thesis
    by (simp add: Let_def)
qed

theorem C4_normal_command_witness:
  "read_channel_code 3 (process_load rx_bytes 105 3 rx_device) = 106
   \<and> eeprom (process_load rx_bytes 99 3 rx_device) = eeprom rx_device"
  using C4_normal_command [of 3 rx_device 105 rx_bytes]
    C4_normal_command [of 3 rx_device 99 rx_bytes]
  by (simp add: Let_def rx_device_read MAX_CHANS_def)

subsection \<open>The reset commands\<close>

lemma countdown_fst:
  "fst (reset_countdown pins idx abort d) =
     (abort \<or> (\<exists>i. 0 \<le> i \<and> i \<le> idx \<and> \<not> fst (pins i) \<and> \<not> snd (pins i)))"
proof (induction pins idx abort d rule: reset_countdown.induct)
  case (1 pins idx abort d)
  show ?case
  proof (cases "idx \<ge> 0 \<and> \<not> abort")
    case True
    have split: "(\<exists>i. 0 \<le> i \<and> i \<le> idx \<and> \<not> fst (pins i) \<and> \<not> snd (pins i)) \<longleftrightarrow>
       (\<not> fst (pins idx) \<and> \<not> snd (pins idx))
         \<or> (\<exists>i. 0 \<le> i \<and> i \<le> idx - 1 \<and> \<not> fst (pins i) \<and> \<not> snd (pins i))"
    proof -
      have "\<And>i. i \<le> idx \<longleftrightarrow> i = idx \<or> i \<le> idx - 1"
        by arith
      with True show ?thesis
        by (metis (no_types, lifting))
    qed
    from True 1 show ?thesis
      by (subst reset_countdown.simps) (simp add: split)
  next
    case False
    then show ?thesis
      by (subst reset_countdown.simps) auto
  qed
qed

lemma countdown_snd:
  "eeprom (snd (reset_countdown pins idx abort d)) = eeprom d \<and>
   (\<exists>evs. trace (snd (reset_countdown pins idx abort d)) = trace d @ evs \<and> writes_of evs = [])"
proof (induction pins idx abort d rule: reset_countdown.induct)
  case (1 pins idx abort d)
  show ?case
  proof (cases "idx \<ge> 0 \<and> \<not> abort")
    case True
    with 1 show ?thesis
      by (subst (1 2) reset_countdown.simps) (auto simp add: lcd_defs emit_sel)
  next
    case False
    then show ?thesis
      by (subst (1 2) reset_countdown.simps) auto
  qed
qed

lemma reset_all_fold:
  "eeprom (fold (\<lambda>idx. write_channel_state (int idx) 0x00) [0..<n] d) =
     (\<lambda>a. if ADDRESS_STATE \<le> a \<and> a < ADDRESS_STATE + n then 0 else eeprom d a)"
  "trace (fold (\<lambda>idx. write_channel_state (int idx) 0x00) [0..<n] d) =
     trace d @ map (\<lambda>idx. Eeprom_write (ADDRESS_STATE + idx) 0) [0..<n]"
  by (induction n)
    (auto simp add: write_channel_state_def eeprom_write_sel fun_eq_iff nat_add_distrib)

text \<open>
  What a reset does to the EEPROM and which writes it makes, by whether the abort
  test held at one of the six samples.
\<close>

lemma process_reset_effect:
  defines "aborted pins \<equiv> \<exists>i. 0 \<le> i \<and> i \<le> 5 \<and> \<not> fst (pins i) \<and> \<not> snd (pins i)"
  shows "eeprom (process_reset chan pins d) =
     (if aborted pins then
        (if chan \<ge> 0 then (eeprom d)(nat (int ADDRESS_STATE + chan) := 0)
         else (\<lambda>a. if ADDRESS_STATE \<le> a \<and> a < ADDRESS_STATE + MAX_CHANS then 0
                    else eeprom d a))
      else eeprom d)"
   and "\<exists>evs. trace (process_reset chan pins d) = trace d @ evs \<and>
          writes_of evs =
            (if aborted pins then
               (if chan \<ge> 0 then [(nat (int ADDRESS_STATE + chan), 0)]
                else map (\<lambda>idx. (ADDRESS_STATE + idx, 0)) [0..<MAX_CHANS])
             else [])"
proof -
  define h where "h = lcd_chr 1 15 (if chan = -1 then CHR ''1'' else CHR ''0'')
    (lcd_chr 1 14 CHR ''1'' (lcd_const 1 6 text_cmd1 (port_d 0x50 d)))"
  define d0 where "d0 = lcd_chr 4 10 CHR ''0'' (lcd_const 3 8 text_lbl4
    (if chan \<ge> 0 then lcd_hex 2 13 chan (lcd_const 2 2 text_res1 h)
     else lcd_const 2 5 text_res2 h))"
  define ad where "ad = reset_countdown pins 5 False d0"
  define d1 where "d1 = lcd_chr 4 11 CHR '' '' (lcd_chr 4 10 CHR '' '' (snd ad))"
  have d0: "eeprom d0 = eeprom d" "\<exists>evs. trace d0 = trace d @ evs \<and> writes_of evs = []"
    by (simp_all add: d0_def h_def lcd_defs emit_sel)
  have fst_ad: "fst ad = aborted pins"
    by (simp add: ad_def countdown_fst aborted_def)
  have d1_eeprom: "eeprom d1 = eeprom d"
    using countdown_snd [of pins 5 False d0] d0
    by (simp add: d1_def ad_def lcd_defs emit_sel)
  obtain e where e: "trace d1 = trace d @ e" "writes_of e = []"
  proof -
    obtain e1 where e1: "trace d0 = trace d @ e1" "writes_of e1 = []"
      using d0 by blast
    obtain e2 where e2: "trace (snd ad) = trace d0 @ e2" "writes_of e2 = []"
      using countdown_snd [of pins 5 False d0] unfolding ad_def by blast
    from e1 e2 have "trace d1 = trace d @ (e1 @ e2 @ [Lcd_chr 4 10 CHR '' '', Lcd_chr 4 11 CHR '' ''])"
      "writes_of (e1 @ e2 @ [Lcd_chr 4 10 CHR '' '', Lcd_chr 4 11 CHR '' '']) = []"
      by (simp_all add: d1_def lcd_defs emit_sel writes_of_append)
    then show thesis
      by (rule that)
  qed
  have eq: "process_reset chan pins d =
      (if fst ad then
         lcd_const 3 6 text_lbl6 (port_d 0x30
           (if chan \<ge> 0 then write_channel_state chan 0x00 d1
            else fold (\<lambda>idx. write_channel_state (int idx) 0x00) [0..<MAX_CHANS] d1))
       else lcd_const 3 6 text_lbl5 (port_d 0x90 d1))"
    unfolding process_reset_def d1_def ad_def d0_def h_def Let_def by simp
  show "eeprom (process_reset chan pins d) =
     (if aborted pins then
        (if chan \<ge> 0 then (eeprom d)(nat (int ADDRESS_STATE + chan) := 0)
         else (\<lambda>a. if ADDRESS_STATE \<le> a \<and> a < ADDRESS_STATE + MAX_CHANS then 0
                    else eeprom d a))
      else eeprom d)"
    unfolding eq fst_ad
    by (simp add: lcd_defs emit_sel write_channel_state_def eeprom_write_sel reset_all_fold
        d1_eeprom cong: if_cong)
  show "\<exists>evs. trace (process_reset chan pins d) = trace d @ evs \<and>
          writes_of evs =
            (if aborted pins then
               (if chan \<ge> 0 then [(nat (int ADDRESS_STATE + chan), 0)]
                else map (\<lambda>idx. (ADDRESS_STATE + idx, 0)) [0..<MAX_CHANS])
             else [])"
    unfolding eq fst_ad
    by (simp add: lcd_defs emit_sel write_channel_state_def eeprom_write_sel reset_all_fold e
        writes_of_append writes_of_map)
qed

lemma code_frame:
  assumes "\<And>a. a < ADDRESS_STATE \<Longrightarrow> eeprom d' a = eeprom d a" "0 \<le> c" "c < int MAX_CHANS"
  shows "read_channel_code c d' = read_channel_code c d"
proof -
  have "nat (int ADDRESS_CODE + c * 4) + idx < ADDRESS_STATE" if "idx < 4" for idx
    using assms(2,3) that by (simp add: ADDRESS_CODE_def ADDRESS_STATE_def MAX_CHANS_def)
  then have "map (\<lambda>idx. eeprom_read (nat (int ADDRESS_CODE + c * 4) + idx) d') [0..<4]
      = map (\<lambda>idx. eeprom_read (nat (int ADDRESS_CODE + c * 4) + idx) d) [0..<4]"
    using assms(1) by (simp add: eeprom_read_def)
  then show ?thesis
    unfolding read_channel_code_def Let_def by (simp only:)
qed

text \<open>
  Claim C3, evaluated where it fails. Channel 3 is enrolled. When the operator
  holds the reset pin at all six samples, the flag of channel 3 is still \<open>0xFF\<close>
  afterwards and the display ends with \<open>Completed!\<close>. When both pins are released
  at the first sample, so that the abort test holds, the flag is written to
  \<open>0x00\<close> and the display ends with \<open>Canceled!\<close>.
\<close>

theorem C3_reset_runs_on_abort:
  "read_channel_state 3 rx_device = 0xFF
   \<and> read_channel_state 3 (process_reset 3 (\<lambda>i. (True, False)) rx_device) = 0xFF
   \<and> last (trace (process_reset 3 (\<lambda>i. (True, False)) rx_device)) = Lcd_const 3 6 ''Completed!''
   \<and> read_channel_state 3 (process_reset 3 (\<lambda>i. (False, False)) rx_device) = 0x00
   \<and> last (trace (process_reset 3 (\<lambda>i. (False, False)) rx_device)) = Lcd_const 3 6 ''Canceled!''"
  by (simp add: process_reset_def reset_countdown.simps Let_def lcd_defs emit_sel
      write_channel_state_def eeprom_write_sel read_channel_state_def eeprom_read_def
      rx_device_def ADDRESS_STATE_def MAX_CHANS_def text_lbl5_def text_lbl6_def)

text \<open>
  Claim C8. When at none of the six samples of the countdown both command pins
  read 0, a reset of one channel or of all channels leaves the whole EEPROM, and
  so every enrollment flag and every rolling code, as it was.
\<close>

theorem C8_reset_without_abort:
  assumes "\<forall>i. 0 \<le> i \<and> i \<le> 5 \<longrightarrow> \<not> (fst (pins i) = False \<and> snd (pins i) = False)"
  shows "eeprom (process_reset chan pins d) = eeprom d"
  using assms by (simp add: process_reset_effect(1)) blast

theorem C8_reset_without_abort_witness:
  "eeprom (process_reset 3 (\<lambda>i. (True, False)) rx_device) = eeprom rx_device"
  using C8_reset_without_abort [of "\<lambda>i. (True, False)" 3 rx_device] by simp

text \<open>
  Claim C10. Every EEPROM write of a reset, of one channel or of all (\<open>chan = -1\<close>),
  stores \<open>0x00\<close> in the enrollment flag of some channel, and the stored rolling
  code of every channel is the same after the reset as before, whether the reset
  wrote or not.
\<close>

theorem C10_reset_keeps_codes:
  assumes "- 1 \<le> chan" "chan < int MAX_CHANS"
  shows "(\<exists>evs. trace (process_reset chan pins d) = trace d @ evs \<and>
            (\<forall>w \<in> set (writes_of evs). \<exists>c < MAX_CHANS. w = (ADDRESS_STATE + c, 0x00)))
       \<and> (\<forall>c. 0 \<le> c \<and> c < int MAX_CHANS \<longrightarrow>
             read_channel_code c (process_reset chan pins d) = read_channel_code c d)"
proof -
  obtain evs where evs: "trace (process_reset chan pins d) = trace d @ evs"
    "writes_of evs =
       (if \<exists>i. 0 \<le> i \<and> i \<le> 5 \<and> \<not> fst (pins i) \<and> \<not> snd (pins i) then
          (if chan \<ge> 0 then [(nat (int ADDRESS_STATE + chan), 0)]
           else map (\<lambda>idx. (ADDRESS_STATE + idx, 0)) [0..<MAX_CHANS])
        else [])"
    using process_reset_effect(2) [of chan pins d] by blast
  have "\<exists>c < MAX_CHANS. w = (ADDRESS_STATE + c, 0x00)" if "w \<in> set (writes_of evs)" for w
  proof (cases "chan \<ge> 0")
    case True
    with that evs(2) have "w = (ADDRESS_STATE + nat chan, 0)"
      by (auto simp add: nat_add_distrib split: if_splits)
    moreover have "nat chan < MAX_CHANS"
      using True \<open>chan < int MAX_CHANS\<close> by simp
    ultimately show ?thesis
      by blast
  next
    case False
    with that evs(2) show ?thesis
      by (auto split: if_splits)
  qed
  moreover have "read_channel_code c (process_reset chan pins d) = read_channel_code c d"
    if "0 \<le> c" "c < int MAX_CHANS" for c
  proof (rule code_frame [OF _ that])
    fix a
    assume a: "a < ADDRESS_STATE"
    then have "a \<noteq> nat (int ADDRESS_STATE + chan)" if "chan \<ge> 0"
      using that by linarith
    with a show "eeprom (process_reset chan pins d) a = eeprom d a"
      unfolding process_reset_effect(1) by (simp del: One_nat_def)
  qed
  ultimately show ?thesis
    using evs(1) by blast
qed

theorem C10_reset_keeps_codes_witness:
  "read_channel_code 3 (process_reset 3 (\<lambda>i. (False, False)) rx_device) = 100
   \<and> read_channel_code 3 (process_reset (- 1) (\<lambda>i. (False, False)) rx_device) = 100"
  using C10_reset_keeps_codes [of 3 "\<lambda>i. (False, False)" rx_device]
    C10_reset_keeps_codes [of "- 1" "\<lambda>i. (False, False)" rx_device]
  by (simp add: MAX_CHANS_def rx_device_read)

section \<open>Properties of the transmitter\<close>

lemma upt16: "[0..<16] = [0, 1, 2, 3, 4, 5, 6, 7, 8, 9, 10, 11, 12, 13, 14, 15]"
  by (simp add: upt_rec)
lemma upt8: "[0..<8] = [0, 1, 2, 3, 4, 5, 6, 7]"
  by (simp add: upt_rec)
lemma upt5: "[0..<5] = [0, 1, 2, 3, 4]"
  by (simp add: upt_rec)

lemma pi_engine_tables:
  "key_p pi_engine = [0x243F, 0x6A88, 0x85A3, 0x08D3, 0x1319, 0x8A2E, 0x0370, 0x7344, 0xA409,
               0x3822, 0x299F, 0x31D0, 0x082E, 0xFA98, 0xEC4E, 0x6C89, 0x4528, 0x21E6]"
  "key_s1 pi_engine = [0x38D0, 0x1377, 0xBE54, 0x66CF, 0x34E9, 0x0C6C, 0xC0AC, 0x29B7,
                0xC97C, 0x50DD, 0x3F84, 0xD5B5, 0xB547, 0x0917, 0x9216, 0xD5D9]"
  "key_s2 pi_engine = [0x8979, 0xD131, 0x0BA6, 0x98DF, 0xB5AC, 0x2FFD, 0x72DB, 0xD01A,
                0xDFB7, 0xB8E1, 0xAFED, 0x6A26, 0x7E96, 0xBA7C, 0x9045, 0xF12C]"
  "key_s3 pi_engine = [0x7F99, 0x24A1, 0x9947, 0xB391, 0x6CF7, 0x0801, 0xF2E2, 0x858E,
                0xFC16, 0x6369, 0x20D8, 0x7157, 0x4E69, 0xA458, 0xFEA3, 0xF493]"
  "key_s4 pi_engine = [0x3D7E, 0x0D95, 0x748F, 0x728E, 0xB658, 0x718B, 0xCD58, 0x8215,
                0x4AEE, 0x7B54, 0xA41D, 0xC25A, 0x59B5, 0x9C30, 0xD539, 0x2AF2]"
  by (simp_all add: pi_engine_def loaded_def keygen_init_def blowfish_setkeys_def)

lemma pi_rounds_1: "fold (encrypt_round pi_engine) [0..<16] (0, 1) = (29683, 62515)"
  by (simp add: upt16 pi_engine_tables encrypt_round_def blowfish_feistel_def SWAP_def)

lemma pi_encrypt_1: "blowfish_encrypt pi_engine 1 = 0xB11B5215"
  by (simp add: blowfish_encrypt_def BIT16_HI_def BIT16_LO_def pi_rounds_1 SWAP_def pi_engine_tables)

lemma crc_frame_1: "crc_ccitt [0x15, 0x52, 0x1B, 0xB1, 0xAA, 0x03] 5 = 0xDB"
  by (simp add: crc_ccitt_def crc_data_byte_def crc_data_bit_def crc_augment_bit_def upt5 upt8)

lemma bytes_frame_1: "native_bytes 0xB11B5215 = [0x15, 0x52, 0x1B, 0xB1]"
  by (simp add: native_bytes_def upt4)

lemma form_1:
  "form_message pi_engine (Suc 0) \<lparr>data = [0xAA, 0xAA, 0xAA, 0xAA, 0xAA, 0x03], beyond = []\<rparr> 0
   = Some (1, \<lparr>data = [0x15, 0x52, 0x1B, 0xB1, 0xAA, 0x03], beyond = [(6, 0xDB)]\<rparr>)"
proof -
  have a: "store_word (blowfish_encrypt pi_engine 1)
      \<lparr>data = [0xAA, 0xAA, 0xAA, 0xAA, 0xAA, 0x03], beyond = []\<rparr>
      = \<lparr>data = [0x15, 0x52, 0x1B, 0xB1, 0xAA, 0x03], beyond = []\<rparr>"
    by (simp add: pi_encrypt_1 store_word_def store_byte_def upt4 bytes_frame_1)
  have b: "store_byte 6 (crc_ccitt [0x15, 0x52, 0x1B, 0xB1, 0xAA, 0x03] 5)
      \<lparr>data = [0x15, 0x52, 0x1B, 0xB1, 0xAA, 0x03], beyond = []\<rparr>
      = \<lparr>data = [0x15, 0x52, 0x1B, 0xB1, 0xAA, 0x03], beyond = [(6, 0xDB)]\<rparr>"
    by (simp add: store_byte_def crc_frame_1)
  have c: "valid_message [0x15, 0x52, 0x1B, 0xB1, 0xAA, 0x03] 6"
    by (simp add: valid_message_def FRAME_MARK_def)
  show ?thesis
    by (simp add: a b c Let_def)
qed

text \<open>
  Claim C1, evaluated where it fails. The transmitter of channel 3 is triggered
  with stored code 0, on a stack that holds \<open>0xAA\<close> where the array is placed.
  Bytes 0 to 3 of the array are the encrypted code 1. Byte 4 is never written and
  still holds \<open>0xAA\<close>, byte 5 holds the channel number 3, and the checksum \<open>0xDB\<close>
  of bytes 0 to 4 is stored through index 6, outside the array of six bytes. The
  six bytes that are sent fail the receiver's checksum test.
\<close>

theorem C1_frame_layout_broken:
  "map_option (\<lambda>r. (fst r, fst (snd r))) (transmit_code pi_engine 3 1 tx_stack 0 16 tx_device)
     = Some (1, \<lparr>data = [0x15, 0x52, 0x1B, 0xB1, 0xAA, 0x03], beyond = [(6, 0xDB)]\<rparr>)
   \<and> \<not> crc_ok [0x15, 0x52, 0x1B, 0xB1, 0xAA, 0x03]"
proof -
  have "store_byte 5 3 \<lparr>data = tx_stack, beyond = []\<rparr>
      = \<lparr>data = [0xAA, 0xAA, 0xAA, 0xAA, 0xAA, 0x03], beyond = []\<rparr>"
    by (simp add: store_byte_def tx_stack_def)
  then show ?thesis
    by (simp add: transmit_code_def form_1 crc_ok_def crc_frame_1 Let_def del: form_message.simps)
qed


lemma send_frame_sel:
  "eeprom (send_frame bs d) = eeprom d"
  "trace (send_frame bs d) = trace d @ Man_send FRAME_MARK # map (\<lambda>idx. Man_send (bs ! idx)) [0..<6]"
  by (simp_all add: send_frame_def upt6 emit_sel)

lemma send_burst_sel:
  "eeprom (send_burst bs cnt d) = eeprom d"
  "trace (send_burst bs cnt d) =
     trace d @ concat (replicate cnt (Man_send FRAME_MARK # map (\<lambda>idx. Man_send (bs ! idx)) [0..<6]))"
  by (induction cnt arbitrary: d) (simp_all add: send_frame_sel)

lemma write_code_sel:
  "eeprom (write_code code d) = (eeprom d)(0 := native_bytes code ! 0, 1 := native_bytes code ! 1,
     2 := native_bytes code ! 2, 3 := native_bytes code ! 3)"
  "trace (write_code code d) = trace d @ map (\<lambda>idx. Eeprom_write idx (native_bytes code ! idx)) [0..<4]"
  by (simp_all add: write_code_def upt4 eeprom_write_sel)

lemma read_write_code: "read_code (write_code code d) = code"
proof -
  have "map (\<lambda>idx. eeprom_read idx (write_code code d)) [0..<4] = native_bytes code"
    by (simp add: eeprom_read_def write_code_sel native_bytes_def upt4)
  then show ?thesis
    by (simp add: read_code_def native_word_bytes)
qed

lemma transmit_code_Some:
  assumes "transmit_code e CHAN_NUM fuel stack code cnt d = Some (code', m, d')"
  shows "eeprom d' = eeprom d"
    and "trace d' = trace d @ Gpio_F4 True #
           concat (replicate cnt (Man_send FRAME_MARK # map (\<lambda>idx. Man_send (data m ! idx)) [0..<6]))
           @ [Gpio_F4 False]"
  using assms
  by (auto simp add: transmit_code_def Let_def emit_sel send_burst_sel split: option.splits)

lemma main_wake_Some:
  assumes "main_wake e CHAN_NUM fuel stack True (code, d) = Some (code', d')"
  obtains m :: frame_mem where "new_events d d' = Gpio_F4 True #
           concat (replicate 16 (Man_send FRAME_MARK # map (\<lambda>idx. Man_send (data m ! idx)) [0..<6]))
           @ Gpio_F4 False # map (\<lambda>idx. Eeprom_write idx (native_bytes code' ! idx)) [0..<4]"
    and "read_code d' = code'"
proof -
  from assms obtain m d1 where t: "transmit_code e CHAN_NUM fuel stack code 16 d = Some (code', m, d1)"
    and d': "d' = write_code code' d1"
    by (auto simp add: main_wake_def split: option.splits)
  have "trace d' = trace d @ (Gpio_F4 True #
           concat (replicate 16 (Man_send FRAME_MARK # map (\<lambda>idx. Man_send (data m ! idx)) [0..<6]))
           @ Gpio_F4 False # map (\<lambda>idx. Eeprom_write idx (native_bytes code' ! idx)) [0..<4])"
    by (simp add: d' write_code_sel transmit_code_Some(2) [OF t])
  then have "new_events d d' = Gpio_F4 True #
           concat (replicate 16 (Man_send FRAME_MARK # map (\<lambda>idx. Man_send (data m ! idx)) [0..<6]))
           @ Gpio_F4 False # map (\<lambda>idx. Eeprom_write idx (native_bytes code' ! idx)) [0..<4]"
    by (rule new_events_append)
  moreover have "read_code d' = code'"
    by (simp add: d' read_write_code)
  ultimately show thesis
    by (rule that)
qed

lemma burst_no_write:
  "list_all (\<lambda>ev. \<not> is_write ev) (concat (replicate n (Man_send b # map (\<lambda>idx. Man_send (f idx)) xs)))"
  by (induction n) (simp_all add: is_write_def list_all_iff)

lemma burst_sends:
  "filter is_send (concat (replicate n (Man_send b # map (\<lambda>idx. Man_send (f idx)) xs)))
     = concat (replicate n (Man_send b # map (\<lambda>idx. Man_send (f idx)) xs))"
  by (induction n) (simp_all add: is_send_def)

lemma burst_writes_of:
  "writes_of (concat (replicate n (Man_send b # map (\<lambda>idx. Man_send (f idx)) xs))) = []"
proof -
  have "writes_of (map (\<lambda>idx. Man_send (f idx)) xs) = []"
    by (induction xs) simp_all
  then show ?thesis
    by (induction n) (simp_all add: writes_of_append)
qed

lemma dropWhile_all: "list_all P xs \<Longrightarrow> dropWhile P (xs @ ys) = dropWhile P ys"
  by (induction xs) simp_all

lemma burst_length:
  "length (concat (replicate n (Man_send b # map (\<lambda>idx. Man_send (f idx)) xs))) = n * Suc (length xs)"
  by (induction n) simp_all

lemma burst_then_write:
  "dropWhile (\<lambda>ev. \<not> is_write ev)
     (Gpio_F4 True # concat (replicate n (Man_send b # map (\<lambda>idx. Man_send (f idx)) xs))
        @ Gpio_F4 False # map (\<lambda>idx. Eeprom_write idx (g idx)) [0..<4])
   = map (\<lambda>idx. Eeprom_write idx (g idx)) [0..<4]"
proof -
  have "dropWhile (\<lambda>ev. \<not> is_write ev)
     (concat (replicate n (Man_send b # map (\<lambda>idx. Man_send (f idx)) xs))
        @ Gpio_F4 False # map (\<lambda>idx. Eeprom_write idx (g idx)) [0..<4])
     = dropWhile (\<lambda>ev. \<not> is_write ev) (Gpio_F4 False # map (\<lambda>idx. Eeprom_write idx (g idx)) [0..<4])"
    by (rule dropWhile_all [OF burst_no_write])
  then show ?thesis
    by (simp add: is_write_def upt4)
qed

lemma encrypt_decrypt_round: "encrypt_round e i (decrypt_round e i hl) = hl"
  by (cases hl) (simp add: decrypt_round_def encrypt_round_def SWAP_eq Let_def xor.assoc)

lemma fold_rounds_inverse2:
  "fold (encrypt_round e) xs (fold (decrypt_round e) (rev xs) hl) = hl"
  by (induction xs arbitrary: hl) (simp_all add: encrypt_decrypt_round)

lemma encrypt_decrypt: "blowfish_encrypt e (blowfish_decrypt e y) = y"
  unfolding blowfish_decrypt_def blowfish_encrypt_def Let_def
  by (simp add: hi_of_join lo_of_join SWAP_eq fold_rounds_inverse2 join_of_halves
      split_beta xor.assoc)

lemma native_bytes_length: "length (native_bytes x) = 4"
  by (simp add: native_bytes_def)

lemma pass_data:
  assumes "length (data m) = 6"
  shows "data (store_byte 6 v (store_word w m)) = native_bytes w @ [data m ! 4, data m ! 5]"
proof -
  obtain a b c d4 d5 d6 where m: "data m = [a, b, c, d4, d5, d6]"
    using assms by (auto simp add: length_Suc_conv eval_nat_numeral)
  then show ?thesis
    by (simp add: store_word_def store_byte_def upt4 native_bytes_def)
qed

lemma pass_length:
  assumes "length (data m) = 6"
  shows "length (data (store_byte 6 v (store_word w m))) = 6"
  using pass_data [OF assms] by (simp add: native_bytes_length)

lemma pass_tail:
  assumes "length (data m) = 6"
  shows "data (store_byte 6 v (store_word w m)) ! 4 = data m ! 4"
    "data (store_byte 6 v (store_word w m)) ! 5 = data m ! 5"
  using pass_data [OF assms] by (simp_all add: nth_append native_bytes_length)


lemma form_message_Some:
  assumes "length (data m) = 6" "form_message e fuel m code = Some (code', m')"
  shows "\<exists>n. 0 < n \<and> n \<le> fuel \<and> code' = code + of_nat n
     \<and> data m' = native_bytes (blowfish_encrypt e code') @ [data m ! 4, data m ! 5]
     \<and> valid_message (native_bytes (blowfish_encrypt e code') @ [data m ! 4, data m ! 5]) 6
     \<and> (\<forall>k. 0 < k \<and> k < n \<longrightarrow>
          \<not> valid_message (native_bytes (blowfish_encrypt e (code + of_nat k)) @ [data m ! 4, data m ! 5]) 6)"
  using assms
proof (induction fuel arbitrary: m code)
  case 0
  then show ?case by simp
next
  case (Suc fuel)
  let ?F = "\<lambda>c. native_bytes (blowfish_encrypt e c) @ [data m ! 4, data m ! 5]"
  define m1 where "m1 = store_byte 6 (crc_ccitt (data (store_word (blowfish_encrypt e (code + 1)) m)) 5)
    (store_word (blowfish_encrypt e (code + 1)) m)"
  have d1: "data m1 = ?F (code + 1)" and l1: "length (data m1) = 6"
    and t1: "data m1 ! 4 = data m ! 4" "data m1 ! 5 = data m ! 5"
    unfolding m1_def using Suc.prems(1)
    by (simp_all add: pass_data native_bytes_length nth_append)
  have step: "form_message e (Suc fuel) m code =
      (if valid_message (data m1) 6 then Some (code + 1, m1) else form_message e fuel m1 (code + 1))"
    by (simp add: m1_def Let_def)
  show ?case
  proof (cases "valid_message (data m1) 6")
    case True
    with Suc.prems(2) step have "code' = code + 1" "m' = m1"
      by simp_all
    with True d1 have "0 < (1::nat) \<and> 1 \<le> Suc fuel \<and> code' = code + of_nat 1
        \<and> data m' = ?F code' \<and> valid_message (?F code') 6
        \<and> (\<forall>k. 0 < k \<and> k < (1::nat) \<longrightarrow> \<not> valid_message (?F (code + of_nat k)) 6)"
      by simp
    then show ?thesis
      by (rule exI)
  next
    case False
    with Suc.prems(2) step have "form_message e fuel m1 (code + 1) = Some (code', m')"
      by simp
    from Suc.IH [OF l1 this] obtain n where n: "0 < n" "n \<le> fuel" "code' = code + 1 + of_nat n"
      "data m' = ?F code'" "valid_message (?F code') 6"
      "\<forall>k. 0 < k \<and> k < n \<longrightarrow> \<not> valid_message (?F (code + 1 + of_nat k)) 6"
      unfolding t1 by blast
    have "\<not> valid_message (?F (code + of_nat k)) 6" if "0 < k" "k < Suc n" for k
    proof (cases "k = 1")
      case True
      with False d1 show ?thesis by simp
    next
      case False
      with that obtain j where j: "k = Suc j" "0 < j" "j < n"
        by (cases k) auto
      with n(6) have "\<not> valid_message (?F (code + 1 + of_nat j)) 6"
        by blast
      then show ?thesis
        by (simp add: j(1) ac_simps)
    qed
    with n have "0 < Suc n \<and> Suc n \<le> Suc fuel \<and> code' = code + of_nat (Suc n)
        \<and> data m' = ?F code' \<and> valid_message (?F code') 6
        \<and> (\<forall>k. 0 < k \<and> k < Suc n \<longrightarrow> \<not> valid_message (?F (code + of_nat k)) 6)"
      by (simp add: ac_simps)
    then show ?thesis
      by (rule exI)
  qed
qed

lemma form_message_reach:
  assumes "length (data m) = 6" "0 < n" "n \<le> fuel"
    "valid_message (native_bytes (blowfish_encrypt e (code + of_nat n)) @ [data m ! 4, data m ! 5]) 6"
  shows "form_message e fuel m code \<noteq> None"
  using assms
proof (induction n arbitrary: fuel m code)
  case 0
  then show ?case by simp
next
  case (Suc n)
  let ?F = "\<lambda>c. native_bytes (blowfish_encrypt e c) @ [data m ! 4, data m ! 5]"
  from Suc.prems(3) obtain f where fuel: "fuel = Suc f" "n \<le> f"
    by (cases fuel) simp_all
  define m1 where "m1 = store_byte 6 (crc_ccitt (data (store_word (blowfish_encrypt e (code + 1)) m)) 5)
    (store_word (blowfish_encrypt e (code + 1)) m)"
  have d1: "data m1 = ?F (code + 1)" and l1: "length (data m1) = 6"
    and t1: "data m1 ! 4 = data m ! 4" "data m1 ! 5 = data m ! 5"
    unfolding m1_def using Suc.prems(1)
    by (simp_all add: pass_data native_bytes_length nth_append)
  have step: "form_message e (Suc f) m code =
      (if valid_message (data m1) 6 then Some (code + 1, m1) else form_message e f m1 (code + 1))"
    by (simp add: m1_def Let_def)
  show ?case
  proof (cases "valid_message (data m1) 6")
    case True
    then show ?thesis
      unfolding fuel(1) step by simp
  next
    case False
    have "0 < n"
    proof (rule ccontr)
      assume "\<not> 0 < n"
      then have "n = 0" by simp
      with Suc.prems(4) d1 False show False by simp
    qed
    moreover have "valid_message (native_bytes (blowfish_encrypt e (code + 1 + of_nat n))
        @ [data m1 ! 4, data m1 ! 5]) 6"
      using Suc.prems(4) unfolding t1 by (simp add: ac_simps)
    ultimately have "form_message e f m1 (code + 1) \<noteq> None"
      using Suc.IH [OF l1 _ fuel(2)] by blast
    with False show ?thesis
      unfolding fuel(1) step by simp
  qed
qed


lemma marker_free_code:
  "\<exists>n. 0 < n \<and> n \<le> 2 ^ 32 \<and> blowfish_encrypt e (code + of_nat n) = 0"
proof -
  define x where "x = blowfish_decrypt e 0"
  have x: "blowfish_encrypt e x = 0"
    by (simp add: x_def encrypt_decrypt)
  show ?thesis
  proof (cases "x = code")
    case True
    have "(of_nat (2 ^ 32) :: uint32_t) = 0"
      by simp
    then have "code + of_nat (2 ^ 32) = x"
      unfolding True by (simp only: add_0_right)
    then have "blowfish_encrypt e (code + of_nat (2 ^ 32)) = 0"
      using x by (simp only:)
    then have "0 < (2 ^ 32 :: nat) \<and> (2 ^ 32 :: nat) \<le> 2 ^ 32
        \<and> blowfish_encrypt e (code + of_nat (2 ^ 32)) = 0"
      by simp
    then show ?thesis
      by (rule exI)
  next
    case False
    then have "x - code \<noteq> 0"
      by simp
    then have pos: "0 < unat (x - code)"
      by (simp add: unat_gt_0)
    have "unat (x - code) < 2 ^ 32"
      using unsigned_less [of "x - code", where 'a = nat] by simp
    moreover have "code + of_nat (unat (x - code)) = x"
      by simp
    ultimately have "0 < unat (x - code) \<and> unat (x - code) \<le> 2 ^ 32
        \<and> blowfish_encrypt e (code + of_nat (unat (x - code))) = 0"
      using pos x by simp
    then show ?thesis
      by (rule exI)
  qed
qed

lemma array_at_entry:
  assumes "length stack = 6"
  shows "length (data (store_byte 5 CHAN_NUM \<lparr>data = stack, beyond = []\<rparr>)) = 6"
    "data (store_byte 5 CHAN_NUM \<lparr>data = stack, beyond = []\<rparr>) ! 4 = stack ! 4"
    "data (store_byte 5 CHAN_NUM \<lparr>data = stack, beyond = []\<rparr>) ! 5 = CHAN_NUM"
  using assms by (simp_all add: store_byte_def)

lemma valid_zero_frame:
  "valid_message (native_bytes 0 @ [b4, b5]) 6 \<longleftrightarrow> b4 \<noteq> FRAME_MARK \<and> b5 \<noteq> FRAME_MARK"
  by (simp add: valid_message_def native_bytes_def upt4 FRAME_MARK_def)

lemma valid_frame_tail:
  assumes "valid_message (native_bytes w @ [b4, b5]) 6"
  shows "b4 \<noteq> FRAME_MARK \<and> b5 \<noteq> FRAME_MARK"
  using assms by (simp add: valid_message_def native_bytes_def upt4)

lemma transmit_code_None:
  "transmit_code e CHAN_NUM fuel stack code cnt d = None \<longleftrightarrow>
     form_message e fuel (store_byte 5 CHAN_NUM \<lparr>data = stack, beyond = []\<rparr>) code = None"
  by (simp add: transmit_code_def Let_def split: option.splits)

lemma transmit_code_form:
  assumes "transmit_code e CHAN_NUM fuel stack code cnt d = Some (code', m, d')"
  shows "form_message e fuel (store_byte 5 CHAN_NUM \<lparr>data = stack, beyond = []\<rparr>) code = Some (code', m)"
  using assms by (auto simp add: transmit_code_def Let_def split: option.splits)

lemma main_wake_None:
  "main_wake e CHAN_NUM fuel stack True (code, d) = None \<longleftrightarrow>
     form_message e fuel (store_byte 5 CHAN_NUM \<lparr>data = stack, beyond = []\<rparr>) code = None"
  using transmit_code_None [of e CHAN_NUM fuel stack code 16 d]
  by (auto simp add: main_wake_def split: option.splits)

lemma main_wake_returns:
  assumes "length stack = 6" "stack ! 4 \<noteq> FRAME_MARK" "CHAN_NUM \<noteq> FRAME_MARK" "2 ^ 32 \<le> fuel"
  shows "main_wake e CHAN_NUM fuel stack True (code, d) \<noteq> None"
proof -
  let ?m = "store_byte 5 CHAN_NUM \<lparr>data = stack, beyond = []\<rparr>"
  obtain n where n: "0 < n" "n \<le> 2 ^ 32" "blowfish_encrypt e (code + of_nat n) = 0"
    using marker_free_code by blast
  have "valid_message (native_bytes (blowfish_encrypt e (code + of_nat n)) @ [data ?m ! 4, data ?m ! 5]) 6"
    using assms(2,3) by (simp only: n(3) array_at_entry [OF assms(1)] valid_zero_frame) simp
  moreover have "n \<le> fuel"
    using n(2) assms(4) by simp
  ultimately have "form_message e fuel ?m code \<noteq> None"
    using form_message_reach [OF array_at_entry(1) [OF assms(1)] n(1)] by blast
  then show ?thesis
    by (simp add: main_wake_None)
qed

lemma main_wake_hangs:
  assumes "length stack = 6" "stack ! 4 = FRAME_MARK \<or> CHAN_NUM = FRAME_MARK"
  shows "main_wake e CHAN_NUM fuel stack True (code, d) = None"
proof -
  let ?m = "store_byte 5 CHAN_NUM \<lparr>data = stack, beyond = []\<rparr>"
  have "form_message e fuel ?m code = None"
  proof (rule ccontr)
    assume "form_message e fuel ?m code \<noteq> None"
    then obtain code' m' where "form_message e fuel ?m code = Some (code', m')"
      by auto
    from form_message_Some [OF array_at_entry(1) [OF assms(1)] this]
    have "valid_message (native_bytes (blowfish_encrypt e code') @ [stack ! 4, CHAN_NUM]) 6"
      unfolding array_at_entry [OF assms(1)] by blast
    then show False
      using valid_frame_tail assms(2) by blast
  qed
  then show ?thesis
    by (simp only: main_wake_None)
qed


lemma map_nth6:
  assumes "length xs = 6"
  shows "map (\<lambda>idx. f (xs ! idx)) [0..<6] = map f xs"
proof -
  have "map (\<lambda>idx. f (xs ! idx)) [0..<length xs] = map f (map ((!) xs) [0..<length xs])"
    by simp
  also have "\<dots> = map f xs"
    by (simp only: map_nth)
  finally show ?thesis
    by (simp only: assms)
qed

lemma main_wake_result:
  assumes "length stack = 6" "main_wake e CHAN_NUM fuel stack True (code, d) = Some (code', d')"
  shows "\<exists>n. 0 < n \<and> code' = code + of_nat n
            \<and> valid_message (frame_for e stack CHAN_NUM code') 6
            \<and> (\<forall>k. 0 < k \<and> k < n \<longrightarrow>
                  \<not> valid_message (frame_for e stack CHAN_NUM (code + of_nat k)) 6)"
    and "new_events d d' =
           Gpio_F4 True # concat (replicate 16 (Man_send FRAME_MARK #
             map Man_send (frame_for e stack CHAN_NUM code')))
           @ Gpio_F4 False # map (\<lambda>idx. Eeprom_write idx (native_bytes code' ! idx)) [0..<4]"
proof -
  let ?m = "store_byte 5 CHAN_NUM \<lparr>data = stack, beyond = []\<rparr>"
  from assms(2) obtain m d1 where t: "transmit_code e CHAN_NUM fuel stack code 16 d = Some (code', m, d1)"
    and d': "d' = write_code code' d1"
    by (auto simp add: main_wake_def split: option.splits)
  from form_message_Some [OF array_at_entry(1) [OF assms(1)] transmit_code_form [OF t]]
  obtain n where n: "0 < n" "code' = code + of_nat n"
    "data m = frame_for e stack CHAN_NUM code'"
    "valid_message (frame_for e stack CHAN_NUM code') 6"
    "\<forall>k. 0 < k \<and> k < n \<longrightarrow> \<not> valid_message (frame_for e stack CHAN_NUM (code + of_nat k)) 6"
    unfolding array_at_entry [OF assms(1)] frame_for_def by blast
  from n(1,2,4,5) have "0 < n \<and> code' = code + of_nat n
      \<and> valid_message (frame_for e stack CHAN_NUM code') 6
      \<and> (\<forall>k. 0 < k \<and> k < n \<longrightarrow>
            \<not> valid_message (frame_for e stack CHAN_NUM (code + of_nat k)) 6)"
    by simp
  then show "\<exists>n. 0 < n \<and> code' = code + of_nat n
            \<and> valid_message (frame_for e stack CHAN_NUM code') 6
            \<and> (\<forall>k. 0 < k \<and> k < n \<longrightarrow>
                  \<not> valid_message (frame_for e stack CHAN_NUM (code + of_nat k)) 6)"
    by (rule exI)
  have len: "length (frame_for e stack CHAN_NUM code') = 6"
    by (simp add: frame_for_def native_bytes_length)
  have "trace d' = trace d @ (Gpio_F4 True #
      concat (replicate 16 (Man_send FRAME_MARK # map (\<lambda>idx. Man_send (data m ! idx)) [0..<6]))
      @ Gpio_F4 False # map (\<lambda>idx. Eeprom_write idx (native_bytes code' ! idx)) [0..<4])"
    by (simp add: d' write_code_sel transmit_code_Some(2) [OF t])
  then have "new_events d d' = Gpio_F4 True #
      concat (replicate 16 (Man_send FRAME_MARK # map (\<lambda>idx. Man_send (data m ! idx)) [0..<6]))
      @ Gpio_F4 False # map (\<lambda>idx. Eeprom_write idx (native_bytes code' ! idx)) [0..<4]"
    by (rule new_events_append)
  then show "new_events d d' =
           Gpio_F4 True # concat (replicate 16 (Man_send FRAME_MARK #
             map Man_send (frame_for e stack CHAN_NUM code')))
           @ Gpio_F4 False # map (\<lambda>idx. Eeprom_write idx (native_bytes code' ! idx)) [0..<4]"
    by (simp only: n(3) map_nth6 [OF len])
qed

text \<open>
  Claim C2, as the code has it. The array of six bytes is as \<open>transmit_code\<close>
  finds it on the stack. When the button is down, the trigger event ends exactly
  when the loop that forms the message ends. With enough passes allowed (the
  \<open>2 ^ 32\<close> codes there are) it ends whenever neither the byte that the stack
  left in \<open>data[4]\<close> nor the channel number is the frame marker, and it never ends
  when one of them is. When it ends, the new code is the first code after the
  stored one whose six bytes are free of the marker, and the effects are, in this
  order: the radio is switched on, the marker and those six bytes are given to
  the radio 16 times, the radio is switched off, and the new code is written to
  the EEPROM in four writes at the addresses 0 to 3. So no byte is sent from the
  first EEPROM write on, and afterwards the EEPROM holds the code that was sent.
\<close>

theorem C2_send_then_persist:
  assumes "length stack = 6"
  shows "(\<forall>code' d'. main_wake e CHAN_NUM fuel stack True (code, d) = Some (code', d') \<longrightarrow>
            (\<exists>n. 0 < n \<and> code' = code + of_nat n
               \<and> valid_message (frame_for e stack CHAN_NUM code') 6
               \<and> (\<forall>k. 0 < k \<and> k < n \<longrightarrow>
                     \<not> valid_message (frame_for e stack CHAN_NUM (code + of_nat k)) 6))
          \<and> new_events d d' =
               Gpio_F4 True # concat (replicate 16 (Man_send FRAME_MARK #
                 map Man_send (frame_for e stack CHAN_NUM code')))
               @ Gpio_F4 False # map (\<lambda>idx. Eeprom_write idx (native_bytes code' ! idx)) [0..<4]
          \<and> sends_precede_write (new_events d d')
          \<and> writes_of (new_events d d') = map (\<lambda>idx. (idx, native_bytes code' ! idx)) [0..<4]
          \<and> length (filter is_send (new_events d d')) = 16 * 7
          \<and> read_code d' = code')
       \<and> (stack ! 4 \<noteq> FRAME_MARK \<and> CHAN_NUM \<noteq> FRAME_MARK \<and> 2 ^ 32 \<le> fuel \<longrightarrow>
            main_wake e CHAN_NUM fuel stack True (code, d) \<noteq> None)
       \<and> (stack ! 4 = FRAME_MARK \<or> CHAN_NUM = FRAME_MARK \<longrightarrow>
            main_wake e CHAN_NUM fuel stack True (code, d) = None)"
proof (intro conjI allI impI)
  fix code' d'
  assume r: "main_wake e CHAN_NUM fuel stack True (code, d) = Some (code', d')"
  show "\<exists>n. 0 < n \<and> code' = code + of_nat n
               \<and> valid_message (frame_for e stack CHAN_NUM code') 6
               \<and> (\<forall>k. 0 < k \<and> k < n \<longrightarrow>
                     \<not> valid_message (frame_for e stack CHAN_NUM (code + of_nat k)) 6)"
    by (rule main_wake_result(1) [OF assms r])
  show "new_events d d' =
               Gpio_F4 True # concat (replicate 16 (Man_send FRAME_MARK #
                 map Man_send (frame_for e stack CHAN_NUM code')))
               @ Gpio_F4 False # map (\<lambda>idx. Eeprom_write idx (native_bytes code' ! idx)) [0..<4]"
    by (rule main_wake_result(2) [OF assms r])
  obtain m :: frame_mem where ev: "new_events d d' = Gpio_F4 True #
      concat (replicate 16 (Man_send FRAME_MARK # map (\<lambda>idx. Man_send (data m ! idx)) [0..<6]))
      @ Gpio_F4 False # map (\<lambda>idx. Eeprom_write idx (native_bytes code' ! idx)) [0..<4]"
    and rd: "read_code d' = code'"
    by (rule main_wake_Some [OF r])
  have "dropWhile (\<lambda>ev. \<not> is_write ev) (new_events d d')
      = map (\<lambda>idx. Eeprom_write idx (native_bytes code' ! idx)) [0..<4]"
    unfolding ev by (rule burst_then_write)
  then show "sends_precede_write (new_events d d')"
    by (simp add: sends_precede_write_def is_send_def upt4)
  show "writes_of (new_events d d') = map (\<lambda>idx. (idx, native_bytes code' ! idx)) [0..<4]"
    unfolding ev by (simp add: writes_of_append burst_writes_of writes_of_map)
  show "length (filter is_send (new_events d d')) = 16 * 7"
    unfolding ev by (simp add: burst_sends burst_length is_send_def upt4)
  show "read_code d' = code'"
    by (rule rd)
next
  assume "stack ! 4 \<noteq> FRAME_MARK \<and> CHAN_NUM \<noteq> FRAME_MARK \<and> 2 ^ 32 \<le> fuel"
  then show "main_wake e CHAN_NUM fuel stack True (code, d) \<noteq> None"
    using main_wake_returns [OF assms] by blast
next
  assume "stack ! 4 = FRAME_MARK \<or> CHAN_NUM = FRAME_MARK"
  then show "main_wake e CHAN_NUM fuel stack True (code, d) = None"
    by (rule main_wake_hangs [OF assms])
qed

lemma tx_transmit_Some:
  obtains d1 where "transmit_code pi_engine 3 1 tx_stack 0 16 tx_device
    = Some (1, \<lparr>data = [0x15, 0x52, 0x1B, 0xB1, 0xAA, 0x03], beyond = [(6, 0xDB)]\<rparr>, d1)"
proof -
  have "store_byte 5 3 \<lparr>data = tx_stack, beyond = []\<rparr>
      = \<lparr>data = [0xAA, 0xAA, 0xAA, 0xAA, 0xAA, 0x03], beyond = []\<rparr>"
    by (simp add: store_byte_def tx_stack_def)
  then have "\<exists>d1. transmit_code pi_engine 3 1 tx_stack 0 16 tx_device
    = Some (1, \<lparr>data = [0x15, 0x52, 0x1B, 0xB1, 0xAA, 0x03], beyond = [(6, 0xDB)]\<rparr>, d1)"
    by (simp add: transmit_code_def form_1 Let_def del: form_message.simps)
  then show thesis
    using that by blast
qed

lemma tx_wake_Some:
  "main_wake pi_engine 3 1 tx_stack True (0, tx_device)
     = Some (1, snd (the (main_wake pi_engine 3 1 tx_stack True (0, tx_device))))"
proof -
  obtain d1 where "transmit_code pi_engine 3 1 tx_stack 0 16 tx_device
    = Some (1, \<lparr>data = [0x15, 0x52, 0x1B, 0xB1, 0xAA, 0x03], beyond = [(6, 0xDB)]\<rparr>, d1)"
    by (rule tx_transmit_Some)
  then show ?thesis
    by (simp add: main_wake_def)
qed

lemma burst_before_write:
  assumes "0 < n"
  shows "\<not> write_precedes_sends
     (Gpio_F4 True # concat (replicate n (Man_send b # xs)) @ ys)"
proof -
  from assms obtain k where "n = Suc k"
    by (cases n) simp_all
  then show ?thesis
    by (simp add: write_precedes_sends_def is_write_def is_send_def)
qed

text \<open>
  Claim C2 as stated fails on the run above: the trigger event returns, and bytes
  of its frame are sent before the first EEPROM write.
\<close>

theorem C2_write_follows_burst:
  "main_wake pi_engine 3 1 tx_stack True (0, tx_device) \<noteq> None
   \<and> \<not> write_precedes_sends
       (new_events tx_device (snd (the (main_wake pi_engine 3 1 tx_stack True (0, tx_device)))))"
proof -
  obtain m :: frame_mem where "new_events tx_device (snd (the (main_wake pi_engine 3 1 tx_stack True (0, tx_device))))
      = Gpio_F4 True #
        concat (replicate 16 (Man_send FRAME_MARK # map (\<lambda>idx. Man_send (data m ! idx)) [0..<6]))
        @ Gpio_F4 False # map (\<lambda>idx. Eeprom_write idx (native_bytes 1 ! idx)) [0..<4]"
    by (rule main_wake_Some [OF tx_wake_Some])
  then have "\<not> write_precedes_sends
       (new_events tx_device (snd (the (main_wake pi_engine 3 1 tx_stack True (0, tx_device)))))"
    by (simp add: burst_before_write)
  moreover have "main_wake pi_engine 3 1 tx_stack True (0, tx_device) \<noteq> None"
    by (subst tx_wake_Some) (rule option.distinct(2))
  ultimately show ?thesis
    by simp
qed

theorem C2_send_then_persist_witness:
  "sends_precede_write
     (new_events tx_device (snd (the (main_wake pi_engine 3 1 tx_stack True (0, tx_device)))))
   \<and> read_code (snd (the (main_wake pi_engine 3 1 tx_stack True (0, tx_device)))) = 1
   \<and> main_wake pi_engine 3 (2 ^ 32) tx_stack True (0, tx_device) \<noteq> None
   \<and> main_wake pi_engine 3 (2 ^ 32) (tx_stack[4 := 0x96]) True (0, tx_device) = None"
proof -
  have len: "length tx_stack = 6"
    by (simp add: tx_stack_def)
  have len': "length (tx_stack[4 := 0x96]) = 6"
    by (simp add: tx_stack_def)
  have mark: "(tx_stack[4 := 0x96]) ! 4 = FRAME_MARK \<or> (3 :: uint8_t) = FRAME_MARK"
    by (simp add: tx_stack_def FRAME_MARK_def)
  note hangs = C2_send_then_persist [OF len', of pi_engine 3 "2 ^ 32" 0 tx_device,
      THEN conjunct2, THEN conjunct2, rule_format, OF mark]
  have free: "tx_stack ! 4 \<noteq> FRAME_MARK \<and> (3 :: uint8_t) \<noteq> FRAME_MARK \<and> (2 ^ 32 :: nat) \<le> 2 ^ 32"
    by (simp add: tx_stack_def FRAME_MARK_def)
  note run = C2_send_then_persist [OF len, of pi_engine 3 1 0 tx_device, THEN conjunct1, rule_format,
      OF tx_wake_Some]
  note ends = C2_send_then_persist [OF len, of pi_engine 3 "2 ^ 32" 0 tx_device, THEN conjunct2,
      THEN conjunct1, rule_format, OF free]
  from run ends hangs show ?thesis
    by blast
qed

section \<open>Properties of the key schedule\<close>

lemma take_update2:
  "Suc n < length xs \<Longrightarrow> take (Suc (Suc n)) (xs[n := a, Suc n := b]) = take n xs @ [a, b]"
  by (simp add: take_Suc_conv_app_nth)

lemma flat_update_p:
  assumes "valid_arrays g" "i < 18"
  shows "flat (g\<lparr>arr_p := (arr_p g)[i := v]\<rparr>) = (flat g)[i := v]"
    and "valid_arrays (g\<lparr>arr_p := (arr_p g)[i := v]\<rparr>)"
  using assms by (simp_all add: flat_def valid_arrays_def list_update_append)

lemma flat_update_s:
  assumes "valid_arrays g" "sidx < 4" "i < 16"
  shows "flat (arr_sx_update sidx (\<lambda>a. a[i := v]) g) = (flat g)[18 + 16 * sidx + i := v]"
    and "valid_arrays (arr_sx_update sidx (\<lambda>a. a[i := v]) g)"
proof -
  from assms(2) consider "sidx = 0" | "sidx = 1" | "sidx = 2" | "sidx = 3"
    by linarith
  then show "flat (arr_sx_update sidx (\<lambda>a. a[i := v]) g) = (flat g)[18 + 16 * sidx + i := v]"
    using assms(1,3)
    by cases (simp_all add: flat_def valid_arrays_def list_update_append arr_sx_update_def)
  from \<open>sidx < 4\<close> consider "sidx = 0" | "sidx = 1" | "sidx = 2" | "sidx = 3"
    by linarith
  then show "valid_arrays (arr_sx_update sidx (\<lambda>a. a[i := v]) g)"
    using assms(1)
    by cases (simp_all add: valid_arrays_def arr_sx_update_def)
qed

lemma flat_length: "valid_arrays g \<Longrightarrow> length (flat g) = 82"
  by (simp add: flat_def valid_arrays_def)

lemma tables_flat:
  assumes "valid_arrays g'" "arr_key g' = arr_key g"
  shows "tables g (flat g') = g'"
  using assms by (cases g, cases g') (simp add: tables_def flat_def valid_arrays_def)

lemma drop_update2:
  "drop (Suc (Suc n)) (xs[n := a, Suc n := b]) = drop (Suc (Suc n)) xs"
  by (simp add: drop_update_cancel)

lemma inv_step:
  assumes inv: "keygen_inv g0 k st" and k: "k < 41"
    and g': "valid_arrays g'" "flat g' = (flat (arrays st))[2 * k := ucast (BIT16_HI_signed b), Suc (2 * k) := ucast (BIT16_LO_signed b)]"
    and key: "arr_key g' = arr_key (arrays st)"
    and b: "b = blowfish_encrypt_kg (arrays st) (block st)"
  shows "keygen_inv g0 (Suc k) \<lparr>arrays = g', block = b, calls = calls st @ [(block st, b)]\<rparr>"
proof -
  let ?hs = "\<lambda>cs. concat (map (\<lambda>c. halves (snd c)) cs)"
  from inv have v: "valid_arrays (arrays st)" and ak: "arr_key (arrays st) = arr_key g0"
    and lc: "length (calls st) = k"
    and tk: "take (2 * k) (flat (arrays st)) = ?hs (calls st)"
    and dk: "drop (2 * k) (flat (arrays st)) = drop (2 * k) (flat g0)"
    and each: "\<forall>j<k. snd (calls st ! j) =
        blowfish_encrypt_kg (tables g0 (?hs (take j (calls st)) @ drop (2 * j) (flat g0)))
          (fst (calls st ! j))"
    by (simp_all add: keygen_inv_def)
  have len: "Suc (2 * k) < length (flat (arrays st))"
    using v k by (simp add: flat_length)
  have t': "take (2 * Suc k) (flat g') = take (2 * k) (flat (arrays st)) @ halves b"
    using take_update2 [OF len] by (simp add: g'(2) halves_def)
  have "drop (Suc (Suc (2 * k))) (flat g') = drop 2 (drop (2 * k) (flat (arrays st)))"
    by (simp add: g'(2) drop_update2)
  also have "\<dots> = drop (Suc (Suc (2 * k))) (flat g0)"
    by (simp add: dk)
  finally have d': "drop (2 * Suc k) (flat g') = drop (2 * Suc k) (flat g0)"
    by simp
  have "flat (arrays st) = ?hs (calls st) @ drop (2 * k) (flat g0)"
    using append_take_drop_id [of "2 * k" "flat (arrays st)"] by (simp only: tk dk)
  then have cur: "arrays st = tables g0 (?hs (calls st) @ drop (2 * k) (flat g0))"
    using tables_flat [OF v ak] by simp
  have new: "snd ((calls st @ [(block st, b)]) ! j) =
      blowfish_encrypt_kg
        (tables g0 (?hs (take j (calls st @ [(block st, b)])) @ drop (2 * j) (flat g0)))
        (fst ((calls st @ [(block st, b)]) ! j))" if "j < Suc k" for j
  proof (cases "j < k")
    case True
    with each lc show ?thesis
      by (simp add: nth_append)
  next
    case False
    with that have "j = k"
      by simp
    then show ?thesis
      using lc b cur by (simp add: nth_append)
  qed
  have chain: "map fst (calls st) @ [block st] = 0 # map snd (calls st)"
    using inv by (simp add: keygen_inv_def butlast_snoc [symmetric] del: butlast_snoc)
  show ?thesis
    unfolding keygen_inv_def
  proof (intro conjI)
    show "valid_arrays (arrays \<lparr>arrays = g', block = b, calls = calls st @ [(block st, b)]\<rparr>)"
      using g'(1) by simp
    show "arr_key (arrays \<lparr>arrays = g', block = b, calls = calls st @ [(block st, b)]\<rparr>) = arr_key g0"
      using key ak by simp
    show "length (calls \<lparr>arrays = g', block = b, calls = calls st @ [(block st, b)]\<rparr>) = Suc k"
      using lc by simp
    show "take (2 * Suc k) (flat (arrays \<lparr>arrays = g', block = b, calls = calls st @ [(block st, b)]\<rparr>))
        = ?hs (calls \<lparr>arrays = g', block = b, calls = calls st @ [(block st, b)]\<rparr>)"
      using t' tk by simp
    show "drop (2 * Suc k) (flat (arrays \<lparr>arrays = g', block = b, calls = calls st @ [(block st, b)]\<rparr>))
        = drop (2 * Suc k) (flat g0)"
      using d' by simp
    show "map fst (calls \<lparr>arrays = g', block = b, calls = calls st @ [(block st, b)]\<rparr>)
        = butlast (0 # map snd (calls \<lparr>arrays = g', block = b, calls = calls st @ [(block st, b)]\<rparr>))"
      using chain by simp
    show "block \<lparr>arrays = g', block = b, calls = calls st @ [(block st, b)]\<rparr>
        = last (0 # map snd (calls \<lparr>arrays = g', block = b, calls = calls st @ [(block st, b)]\<rparr>))"
      by simp
    show "\<forall>j<Suc k. snd (calls \<lparr>arrays = g', block = b, calls = calls st @ [(block st, b)]\<rparr> ! j) =
        blowfish_encrypt_kg
          (tables g0 (?hs (take j (calls \<lparr>arrays = g', block = b, calls = calls st @ [(block st, b)]\<rparr>))
                        @ drop (2 * j) (flat g0)))
          (fst (calls \<lparr>arrays = g', block = b, calls = calls st @ [(block st, b)]\<rparr> ! j))"
      using new by simp
  qed
qed

lemma p_step_inv:
  assumes "keygen_inv g0 k st" "k < 9"
  shows "keygen_inv g0 (Suc k) (keygen_p_step (2 * k) st)"
proof -
  let ?b = "blowfish_encrypt_kg (arrays st) (block st)"
  let ?g1 = "(arrays st)\<lparr>arr_p := (arr_p (arrays st))[2 * k := ucast (BIT16_HI_signed ?b)]\<rparr>"
  let ?g2 = "?g1\<lparr>arr_p := (arr_p ?g1)[Suc (2 * k) := ucast (BIT16_LO_signed ?b)]\<rparr>"
  have v: "valid_arrays (arrays st)"
    using assms(1) by (simp add: keygen_inv_def)
  have v1: "valid_arrays ?g1" and f1: "flat ?g1 = (flat (arrays st))[2 * k := ucast (BIT16_HI_signed ?b)]"
    using flat_update_p [OF v, of "2 * k"] assms(2) by simp_all
  have v2: "valid_arrays ?g2" and f2: "flat ?g2 = (flat ?g1)[Suc (2 * k) := ucast (BIT16_LO_signed ?b)]"
    using flat_update_p [OF v1, of "Suc (2 * k)"] assms(2) by simp_all
  have "keygen_p_step (2 * k) st = \<lparr>arrays = ?g2, block = ?b, calls = calls st @ [(block st, ?b)]\<rparr>"
    by (simp add: keygen_p_step_def Let_def)
  moreover have "keygen_inv g0 (Suc k) \<lparr>arrays = ?g2, block = ?b, calls = calls st @ [(block st, ?b)]\<rparr>"
  proof (rule inv_step [OF assms(1) _ v2])
    show "k < 41"
      using assms(2) by simp
    show "flat ?g2 = (flat (arrays st))[2 * k := ucast (BIT16_HI_signed ?b), Suc (2 * k) := ucast (BIT16_LO_signed ?b)]"
      by (simp only: f2 f1)
    show "arr_key ?g2 = arr_key (arrays st)"
      by simp
    show "?b = blowfish_encrypt_kg (arrays st) (block st)"
      by (rule refl)
  qed
  ultimately show ?thesis
    by simp
qed

lemma arr_sx_update_twice:
  "arr_sx_update sidx f (arr_sx_update sidx h g) = arr_sx_update sidx (\<lambda>a. f (h a)) g"
  by (simp add: arr_sx_update_def)

lemma s_step_inv:
  assumes "keygen_inv g0 (9 + 8 * sidx + j) st" "sidx < 4" "j < 8"
  shows "keygen_inv g0 (Suc (9 + 8 * sidx + j)) (keygen_s_step sidx (2 * j) st)"
proof -
  let ?k = "9 + 8 * sidx + j"
  let ?b = "blowfish_encrypt_kg (arrays st) (block st)"
  let ?g1 = "arr_sx_update sidx (\<lambda>a. a[2 * j := ucast (BIT16_HI_signed ?b)]) (arrays st)"
  let ?g2 = "arr_sx_update sidx (\<lambda>a. a[Suc (2 * j) := ucast (BIT16_LO_signed ?b)]) ?g1"
  have v: "valid_arrays (arrays st)"
    using assms(1) by (simp add: keygen_inv_def)
  have pos: "18 + 16 * sidx + 2 * j = 2 * ?k" "18 + 16 * sidx + Suc (2 * j) = Suc (2 * ?k)"
    by simp_all
  have j: "2 * j < 16" "Suc (2 * j) < 16"
    using assms(3) by simp_all
  have v1: "valid_arrays ?g1"
    by (rule flat_update_s(2) [OF v assms(2) j(1)])
  have f1: "flat ?g1 = (flat (arrays st))[2 * ?k := ucast (BIT16_HI_signed ?b)]"
    using flat_update_s(1) [OF v assms(2) j(1)] by (simp only: pos)
  have v2: "valid_arrays ?g2"
    by (rule flat_update_s(2) [OF v1 assms(2) j(2)])
  have f2: "flat ?g2 = (flat ?g1)[Suc (2 * ?k) := ucast (BIT16_LO_signed ?b)]"
    using flat_update_s(1) [OF v1 assms(2) j(2)] by (simp only: pos)
  have "keygen_s_step sidx (2 * j) st = \<lparr>arrays = ?g2, block = ?b, calls = calls st @ [(block st, ?b)]\<rparr>"
    by (simp add: keygen_s_step_def Let_def)
  moreover have "keygen_inv g0 (Suc ?k) \<lparr>arrays = ?g2, block = ?b, calls = calls st @ [(block st, ?b)]\<rparr>"
  proof (rule inv_step [OF assms(1) _ v2])
    show "?k < 41"
      using assms(2,3) by simp
    show "flat ?g2 = (flat (arrays st))[2 * ?k := ucast (BIT16_HI_signed ?b), Suc (2 * ?k) := ucast (BIT16_LO_signed ?b)]"
      by (simp only: f2 f1)
    show "arr_key ?g2 = arr_key (arrays st)"
      by (simp add: arr_sx_update_def)
    show "?b = blowfish_encrypt_kg (arrays st) (block st)"
      by (rule refl)
  qed
  ultimately show ?thesis
    by simp
qed

lemma p_loop_inv:
  assumes "keygen_inv g0 0 st" "n \<le> 9"
  shows "keygen_inv g0 n (fold keygen_p_step (map (\<lambda>i. 2 * i) [0..<n]) st)"
  using assms(2)
proof (induction n)
  case 0
  then show ?case using assms(1) by simp
next
  case (Suc n)
  then show ?case
    by (simp add: p_step_inv)
qed

lemma s_inner_inv:
  assumes "keygen_inv g0 (9 + 8 * sidx) st" "sidx < 4" "n \<le> 8"
  shows "keygen_inv g0 (9 + 8 * sidx + n) (fold (keygen_s_step sidx) (map (\<lambda>i. 2 * i) [0..<n]) st)"
  using assms(3)
proof (induction n)
  case 0
  then show ?case using assms(1) by simp
next
  case (Suc n)
  then have "keygen_inv g0 (9 + 8 * sidx + n) (fold (keygen_s_step sidx) (map (\<lambda>i. 2 * i) [0..<n]) st)"
    by simp
  then have "keygen_inv g0 (Suc (9 + 8 * sidx + n))
      (keygen_s_step sidx (2 * n) (fold (keygen_s_step sidx) (map (\<lambda>i. 2 * i) [0..<n]) st))"
    using assms(2) Suc.prems by (intro s_step_inv) simp_all
  then show ?case
    by simp
qed

lemma s_outer_inv:
  assumes "keygen_inv g0 9 st" "m \<le> 4"
  shows "keygen_inv g0 (9 + 8 * m)
    (fold (\<lambda>sidx. fold (keygen_s_step sidx) (map (\<lambda>i. 2 * i) [0..<8])) [0..<m] st)"
  using assms(2)
proof (induction m)
  case 0
  then show ?case using assms(1) by simp
next
  case (Suc m)
  then have "keygen_inv g0 (9 + 8 * m)
      (fold (\<lambda>sidx. fold (keygen_s_step sidx) (map (\<lambda>i. 2 * i) [0..<8])) [0..<m] st)"
    by simp
  then have "keygen_inv g0 (9 + 8 * m + 8) (fold (keygen_s_step m) (map (\<lambda>i. 2 * i) [0..<8])
      (fold (\<lambda>sidx. fold (keygen_s_step sidx) (map (\<lambda>i. 2 * i) [0..<8])) [0..<m] st))"
    using Suc.prems by (intro s_inner_inv) simp_all
  then show ?case
    by (simp add: add.commute add.left_commute)
qed

lemma xor_seed_valid:
  "valid_arrays g \<Longrightarrow> valid_arrays (fold xor_seed_step xs g)"
  by (induction xs arbitrary: g) (simp_all add: xor_seed_step_def valid_arrays_def)

lemma keygen_final_inv:
  assumes "valid_arrays g"
  shows "keygen_inv (fold xor_seed_step [0..<18] g) 41 (blowfish_keygen g)"
proof -
  let ?g0 = "fold xor_seed_step [0..<18] g"
  let ?st0 = "\<lparr>arrays = ?g0, block = 0, calls = []\<rparr>"
  have "keygen_inv ?g0 0 ?st0"
    using xor_seed_valid [OF assms] by (simp add: keygen_inv_def)
  then have "keygen_inv ?g0 9 (fold keygen_p_step (map (\<lambda>i. 2 * i) [0..<9]) ?st0)"
    by (rule p_loop_inv) simp
  then have "keygen_inv ?g0 (9 + 8 * 4)
      (fold (\<lambda>sidx. fold (keygen_s_step sidx) (map (\<lambda>i. 2 * i) [0..<8])) [0..<4]
        (fold keygen_p_step (map (\<lambda>i. 2 * i) [0..<9]) ?st0))"
    by (rule s_outer_inv) simp
  then show ?thesis
    by (simp add: blowfish_keygen_def Let_def)
qed

lemma halves_eq: "halves b = [ucast (drop_bit 16 b), ucast b]"
proof -
  have "(ucast (BIT16_HI_signed b) :: uint16_t) = ucast (drop_bit 16 b)"
    unfolding BIT16_HI_signed_def mask16_32
    by (rule bit_word_eqI) (auto simp add: bit_simps)
  moreover have "(ucast (BIT16_LO_signed b) :: uint16_t) = ucast b"
    unfolding BIT16_LO_signed_def mask16_32
    by (rule bit_word_eqI) (auto simp add: bit_simps)
  ultimately show ?thesis
    by (simp add: halves_def)
qed

lemma xor_seed_fold:
  assumes "n \<le> length (arr_p g)"
  shows "fold xor_seed_step [0..<n] g =
     g\<lparr>arr_p := map (\<lambda>idx. arr_p g ! idx XOR arr_key_word g idx) [0..<n] @ drop n (arr_p g)\<rparr>"
  using assms
proof (induction n)
  case 0
  then show ?case by simp
next
  case (Suc n)
  then have n: "n < length (arr_p g)"
    by simp
  have "(map (\<lambda>idx. arr_p g ! idx XOR arr_key_word g idx) [0..<n] @ drop n (arr_p g))
      [n := arr_p g ! n XOR arr_key_word g n]
      = map (\<lambda>idx. arr_p g ! idx XOR arr_key_word g idx) [0..<n] @ (arr_p g ! n XOR arr_key_word g n) # drop (Suc n) (arr_p g)"
    using n by (simp add: list_update_append Cons_nth_drop_Suc [symmetric])
  moreover have "(map (\<lambda>idx. arr_p g ! idx XOR arr_key_word g idx) [0..<n] @ drop n (arr_p g)) ! n = arr_p g ! n"
    using n by (simp add: nth_append)
  ultimately show ?case
    using Suc n by (simp add: xor_seed_step_def arr_key_word_def)
qed

lemma p_step_calls: "calls (keygen_p_step idx st) = calls st @ [(block st, blowfish_encrypt_kg (arrays st) (block st))]"
  by (simp add: keygen_p_step_def Let_def)

lemma s_step_calls: "calls (keygen_s_step sidx idx st) = calls st @ [(block st, blowfish_encrypt_kg (arrays st) (block st))]"
  by (simp add: keygen_s_step_def Let_def)

lemma p_fold_calls: "\<exists>cs. calls (fold keygen_p_step xs st) = calls st @ cs"
proof (induction xs arbitrary: st)
  case Nil
  then show ?case by simp
next
  case (Cons x xs)
  obtain cs where "calls (fold keygen_p_step xs (keygen_p_step x st))
      = calls (keygen_p_step x st) @ cs"
    using Cons.IH by blast
  then show ?case
    by (simp add: p_step_calls)
qed

lemma s_fold_calls: "\<exists>cs. calls (fold (keygen_s_step sidx) xs st) = calls st @ cs"
proof (induction xs arbitrary: st)
  case Nil
  then show ?case by simp
next
  case (Cons x xs)
  obtain cs where "calls (fold (keygen_s_step sidx) xs (keygen_s_step sidx x st))
      = calls (keygen_s_step sidx x st) @ cs"
    using Cons.IH by blast
  then show ?case
    by (simp add: s_step_calls)
qed

lemma ss_fold_calls: "\<exists>cs. calls (fold (\<lambda>sidx. fold (keygen_s_step sidx) ys) xs st) = calls st @ cs"
proof (induction xs arbitrary: st)
  case Nil
  then show ?case by simp
next
  case (Cons x xs)
  obtain c1 where "calls (fold (keygen_s_step x) ys st) = calls st @ c1"
    using s_fold_calls by blast
  moreover obtain c2 where "calls (fold (\<lambda>sidx. fold (keygen_s_step sidx) ys) xs (fold (keygen_s_step x) ys st))
      = calls (fold (keygen_s_step x) ys st) @ c2"
    using Cons.IH by blast
  ultimately show ?case
    by simp
qed

lemma keygen_first_call:
  "hd (calls (blowfish_keygen g)) = (0, blowfish_encrypt_kg (fold xor_seed_step [0..<18] g) 0)"
proof -
  let ?st0 = "\<lparr>arrays = fold xor_seed_step [0..<18] g, block = 0, calls = []\<rparr>"
  have nine: "map (\<lambda>i. 2 * i) [0..<9] = 0 # map (\<lambda>i. 2 * i) [1..<9]"
    by (simp add: upt_rec)
  obtain c1 where c1: "calls (fold keygen_p_step (map (\<lambda>i. 2 * i) [1..<9]) (keygen_p_step 0 ?st0))
      = calls (keygen_p_step 0 ?st0) @ c1"
    using p_fold_calls [of "map (\<lambda>i. 2 * i) [1..<9]" "keygen_p_step 0 ?st0"] by (elim exE)
  obtain c2 where c2: "calls (blowfish_keygen g)
      = calls (fold keygen_p_step (map (\<lambda>i. 2 * i) [0..<9]) ?st0) @ c2"
    unfolding blowfish_keygen_def Let_def
    using ss_fold_calls [of "map (\<lambda>i. 2 * i) [0..<8]" "[0..<4]"
        "fold keygen_p_step (map (\<lambda>i. 2 * i) [0..<9]) ?st0"]
    by (elim exE)
  from c2 have "calls (blowfish_keygen g)
      = calls (fold keygen_p_step (0 # map (\<lambda>i. 2 * i) [1..<9]) ?st0) @ c2"
    by (simp only: nine)
  then have "calls (blowfish_keygen g) = (calls (keygen_p_step 0 ?st0) @ c1) @ c2"
    by (simp only: fold_Cons comp_apply c1)
  then show ?thesis
    by (simp add: p_step_calls)
qed

lemma keygen_init_valid: "valid_arrays keygen_init"
  by (simp add: valid_arrays_def keygen_init_def)

text \<open>
  Claim C6, with the count that the code has. After the seed is XORed into the P
  table, the key schedule calls the cipher exactly 41 times: 9 times for the 18
  words of P and 8 times for the 16 words of each S table. The first call
  encrypts the zero block under the seeded tables. Every later call encrypts the
  result of the call before it, under the tables in progress: the seeded tables
  with their first words replaced by the halves of the results so far. The five
  tables in the order P, S1, S2, S3, S4 are the results in the order of the
  calls, each as its high half followed by its low half.
\<close>

theorem C6_key_schedule:
  assumes "valid_arrays g"
  shows "let r = blowfish_keygen g; outs = map snd (calls r);
             seeded = g\<lparr>arr_p := map (\<lambda>idx. arr_p g ! idx XOR arr_key_word g idx) [0..<18]\<rparr>
         in length (calls r) = 41
          \<and> hd (calls r) = (0, blowfish_encrypt_kg seeded 0)
          \<and> map fst (calls r) = 0 # butlast outs
          \<and> (\<forall>k<41. calls r ! k =
               (let input = (if k = 0 then 0 else outs ! (k - 1));
                    in_progress = tables seeded
                      (concat (map (\<lambda>b. [ucast (drop_bit 16 b), ucast b]) (take k outs))
                         @ drop (2 * k) (flat seeded))
                in (input, blowfish_encrypt_kg in_progress input)))
          \<and> arr_p (arrays r) @ arr_s1 (arrays r) @ arr_s2 (arrays r) @ arr_s3 (arrays r)
               @ arr_s4 (arrays r) = concat (map (\<lambda>b. [ucast (drop_bit 16 b), ucast b]) outs)
          \<and> length (arr_p (arrays r)) = 18 \<and> length (arr_s1 (arrays r)) = 16
          \<and> length (arr_s2 (arrays r)) = 16 \<and> length (arr_s3 (arrays r)) = 16
          \<and> length (arr_s4 (arrays r)) = 16"
proof -
  define r where "r = blowfish_keygen g"
  define seeded where
    "seeded = g\<lparr>arr_p := map (\<lambda>idx. arr_p g ! idx XOR arr_key_word g idx) [0..<18]\<rparr>"
  have seed: "fold xor_seed_step [0..<18] g = seeded"
    using xor_seed_fold [of 18 g] assms by (simp add: valid_arrays_def seeded_def)
  have inv: "keygen_inv seeded 41 r"
    unfolding r_def seed [symmetric] by (rule keygen_final_inv [OF assms])
  then have len: "length (calls r) = 41" and v: "valid_arrays (arrays r)"
    by (simp_all add: keygen_inv_def)
  have first: "hd (calls r) = (0, blowfish_encrypt_kg seeded 0)"
    unfolding r_def by (simp only: keygen_first_call seed)
  from len have "map snd (calls r) \<noteq> []"
    by auto
  then have chain: "map fst (calls r) = 0 # butlast (map snd (calls r))"
    using inv by (simp add: keygen_inv_def)
  have each: "calls r ! k =
      (let input = (if k = 0 then 0 else map snd (calls r) ! (k - 1));
           in_progress = tables seeded
             (concat (map (\<lambda>b. [ucast (drop_bit 16 b), ucast b]) (take k (map snd (calls r))))
                @ drop (2 * k) (flat seeded))
       in (input, blowfish_encrypt_kg in_progress input))" if k: "k < 41" for k
  proof -
    have "fst (calls r ! k) = map fst (calls r) ! k"
      using k len by simp
    also have "\<dots> = (if k = 0 then 0 else map snd (calls r) ! (k - 1))"
      unfolding chain using k len by (cases k) (simp_all add: nth_butlast)
    finally have input: "fst (calls r ! k) = (if k = 0 then 0 else map snd (calls r) ! (k - 1))" .
    have "concat (map (\<lambda>c. halves (snd c)) (take k (calls r)))
        = concat (map (\<lambda>b. [ucast (drop_bit 16 b), ucast b]) (take k (map snd (calls r))))"
      by (simp add: take_map halves_eq comp_def)
    moreover have "snd (calls r ! k) =
        blowfish_encrypt_kg
          (tables seeded (concat (map (\<lambda>c. halves (snd c)) (take k (calls r)))
                            @ drop (2 * k) (flat seeded)))
          (fst (calls r ! k))"
      using inv k by (simp add: keygen_inv_def)
    ultimately have "snd (calls r ! k) =
        blowfish_encrypt_kg
          (tables seeded
             (concat (map (\<lambda>b. [ucast (drop_bit 16 b), ucast b]) (take k (map snd (calls r))))
                @ drop (2 * k) (flat seeded)))
          (if k = 0 then 0 else map snd (calls r) ! (k - 1))"
      by (simp only: input)
    with input show ?thesis
      unfolding Let_def by (simp only: prod_eq_iff fst_conv snd_conv simp_thms)
  qed
  have "take (2 * 41) (flat (arrays r)) = flat (arrays r)"
    using flat_length [OF v] by simp
  then have tabs: "flat (arrays r) = concat (map (\<lambda>b. [ucast (drop_bit 16 b), ucast b]) (map snd (calls r)))"
    using inv by (simp add: keygen_inv_def halves_eq comp_def)
  have sizes: "length (arr_p (arrays r)) = 18 \<and> length (arr_s1 (arrays r)) = 16
      \<and> length (arr_s2 (arrays r)) = 16 \<and> length (arr_s3 (arrays r)) = 16
      \<and> length (arr_s4 (arrays r)) = 16"
    using v by (simp add: valid_arrays_def)
  from tabs have tabs': "arr_p (arrays r) @ arr_s1 (arrays r) @ arr_s2 (arrays r) @ arr_s3 (arrays r)
      @ arr_s4 (arrays r) = concat (map (\<lambda>b. [ucast (drop_bit 16 b), ucast b]) (map snd (calls r)))"
    by (simp only: flat_def)
  show ?thesis
    unfolding r_def [symmetric] seeded_def [symmetric]
    using len first chain each tabs' sizes by (simp only: Let_def simp_thms) blast
qed

theorem C6_key_schedule_witness:
  "valid_arrays keygen_init \<and> length (calls (blowfish_keygen keygen_init)) = 41
   \<and> fst (calls (blowfish_keygen keygen_init) ! 1) = snd (calls (blowfish_keygen keygen_init) ! 0)"
proof -
  note t = C6_key_schedule [OF keygen_init_valid, unfolded Let_def]
  from t have len: "length (calls (blowfish_keygen keygen_init)) = 41"
    by (rule conjunct1)
  from t have each: "\<forall>k<41. fst (calls (blowfish_keygen keygen_init) ! k)
      = (if k = 0 then 0 else map snd (calls (blowfish_keygen keygen_init)) ! (k - 1))"
    by simp
  from each [rule_format, of 1] len
  have "fst (calls (blowfish_keygen keygen_init) ! 1) = snd (calls (blowfish_keygen keygen_init) ! 0)"
    by simp
  with len keygen_init_valid show ?thesis
    by simp
qed

lemma keygen_calls_length: "valid_arrays g \<Longrightarrow> length (calls (blowfish_keygen g)) = 41"
  using keygen_final_inv [of g] by (simp add: keygen_inv_def)

text \<open>
  Claim C6 as stated fails: started from the initial arrays, the key schedule does
  not make 37 calls of the cipher.
\<close>

theorem C6_not_37_calls: "length (calls (blowfish_keygen keygen_init)) \<noteq> 37"
  using keygen_calls_length [OF keygen_init_valid] by simp

section \<open>Properties of the seed input\<close>

lemma parse_step_length: "length (parse_step line klen idx buf) = length buf"
  by (simp add: parse_step_def Let_def)

lemma parse_fold_length: "length (fold (parse_step line klen) xs buf) = length buf"
  by (induction xs arbitrary: buf) (simp_all add: parse_step_length)

lemma parse_key_length: "length (parse_key line) = 36"
  by (simp add: parse_key_def parse_fold_length)

lemma strtok_seed:
  assumes "line \<noteq> []" "list_all isxdigit line"
  shows "strtok_line (line @ [CHR 0x0A]) = line"
proof -
  have nd: "\<not> is_delim c" if "c \<in> set line" for c
  proof -
    from that assms(2) have "isxdigit c"
      by (simp add: list_all_iff)
    then show ?thesis
      by (auto simp add: isxdigit_def is_delim_def Let_def)
  qed
  then have tw: "takeWhile (\<lambda>c. \<not> is_delim c) (line @ [CHR 0x0A]) = line"
    by (simp add: takeWhile_append2 is_delim_def)
  obtain c cs where line: "line = c # cs"
    using assms(1) by (cases line) simp_all
  then have "\<not> is_delim c"
    using nd by simp
  then have "takeWhile is_delim (line @ [CHR 0x0A]) = []" "dropWhile is_delim (line @ [CHR 0x0A]) = line @ [CHR 0x0A]"
    by (simp_all add: line)
  then show ?thesis
    by (simp add: strtok_line_def tw)
qed

lemma get_input_seed:
  assumes "line \<noteq> []" "list_all isxdigit line"
  shows "get_input ((line @ [CHR 0x0A]) # rest) g = Inr (g\<lparr>arr_key := parse_key line\<rparr>)"
  using assms by (simp add: strtok_seed Let_def)

lemma parse_key_excess:
  assumes "72 \<le> length line"
  shows "parse_key (line @ [c]) = parse_step (line @ [c]) 36 (length line) (parse_key line)"
proof -
  let ?n = "length line"
  have "fold (parse_step (line @ [c]) 36) [0..<?n] buf = fold (parse_step line 36) [0..<?n] buf" for buf
  proof (rule fold_cong)
    fix idx
    assume "idx \<in> set [0..<?n]"
    then have idx: "idx < ?n"
      by simp
    then have "(line @ [c]) ! (idx mod length (line @ [c])) = line ! (idx mod ?n)"
      by (simp add: nth_append)
    then show "parse_step (line @ [c]) 36 idx = parse_step line 36 idx"
      by (simp add: parse_step_def Let_def fun_eq_iff)
  qed simp_all
  moreover have "max (length (line @ [c])) (36 * 2) = Suc ?n" "max ?n (36 * 2) = ?n"
    using assms by simp_all
  ultimately show ?thesis
    by (simp add: parse_key_def Let_def)
qed


lemma parse_prefix:
  fixes line :: string
  defines "h i \<equiv> (word_of_int (HEX2BIN (line ! (i mod length line))) :: uint8_t)"
  assumes "n \<le> 72"
  shows "\<forall>b<36. fold (parse_step line 36) [0..<n] (replicate 36 0) ! b =
           (if 2 * b < n then push_bit 4 (h (2 * b)) else 0)
             XOR (if 2 * b + 1 < n then h (2 * b + 1) else 0)"
  using assms(2)
proof (induction n)
  case 0
  then show ?case by simp
next
  case (Suc n)
  let ?B = "fold (parse_step line 36) [0..<n] (replicate 36 0)"
  have len: "length ?B = 36"
    by (simp add: parse_fold_length)
  have IH: "\<forall>b<36. ?B ! b = (if 2 * b < n then push_bit 4 (h (2 * b)) else 0)
             XOR (if 2 * b + 1 < n then h (2 * b + 1) else 0)"
    using Suc by simp
  have pos: "(n div 2) mod 36 = n div 2" "n div 2 < 36"
    using Suc.prems by simp_all
  have step: "fold (parse_step line 36) [0..<Suc n] (replicate 36 0)
      = ?B[n div 2 := ?B ! (n div 2) XOR push_bit (if odd n then 0 else 4) (h n)]"
    by (simp add: parse_step_def Let_def pos h_def of_int_push_bit odd_iff_mod_2_eq_one)
  show ?case
  proof (intro allI impI)
    fix b :: nat
    assume b: "b < 36"
    show "fold (parse_step line 36) [0..<Suc n] (replicate 36 0) ! b =
           (if 2 * b < Suc n then push_bit 4 (h (2 * b)) else 0)
             XOR (if 2 * b + 1 < Suc n then h (2 * b + 1) else 0)"
    proof (cases "b = n div 2")
      case False
      then have "2 * b < Suc n \<longleftrightarrow> 2 * b < n" "2 * b + 1 < Suc n \<longleftrightarrow> 2 * b + 1 < n"
        by presburger+
      with False IH b show ?thesis
        unfolding step by (simp add: len)
    next
      case True
      show ?thesis
      proof (cases "even n")
        case even: True
        with True have n: "n = 2 * b"
          by presburger
        then have c: "\<not> 2 * b < n" "\<not> 2 * b + 1 < n" "2 * b < Suc n" "\<not> 2 * b + 1 < Suc n"
          by simp_all
        from IH b c have old: "?B ! b = 0"
          by simp
        have "(?B[n div 2 := ?B ! (n div 2) XOR push_bit (if odd n then 0 else 4) (h n)]) ! b
            = ?B ! b XOR push_bit 4 (h n)"
          using True even b by (simp add: len)
        also have "\<dots> = push_bit 4 (h (2 * b))"
          by (simp only: old) (simp add: n)
        finally show ?thesis
          unfolding step using c by simp
      next
        case odd: False
        with True have n: "n = 2 * b + 1"
          by presburger
        then have c: "2 * b < n" "\<not> 2 * b + 1 < n" "2 * b < Suc n" "2 * b + 1 < Suc n"
          by simp_all
        from IH b c have old: "?B ! b = push_bit 4 (h (2 * b))"
          by simp
        have "(?B[n div 2 := ?B ! (n div 2) XOR push_bit (if odd n then 0 else 4) (h n)]) ! b
            = ?B ! b XOR h n"
          using True odd b by (simp add: len)
        also have "\<dots> = push_bit 4 (h (2 * b)) XOR h (2 * b + 1)"
          by (simp only: old) (simp only: n)
        finally show ?thesis
          unfolding step using c by simp
      qed
    qed
  qed
qed


lemma HEX2BIN_range:
  assumes "isxdigit c"
  shows "0 \<le> HEX2BIN c \<and> HEX2BIN c < 16"
proof -
  have "(of_char c :: int) = int (of_char c :: nat)"
    by (simp only: of_nat_of_char)
  with assms show ?thesis
    by (auto simp add: isxdigit_def isalpha_def tolower_def HEX2BIN_def Let_def)
qed

lemma pack_nibbles:
  assumes "0 \<le> a" "a < 16" "0 \<le> b" "b < 16"
  shows "uint (push_bit 4 (word_of_int a :: uint8_t) XOR word_of_int b) = 16 * a + b"
proof -
  have disj: "\<not> bit (push_bit 4 a) n \<or> \<not> bit b n" for n
  proof (cases "n < 4")
    case True
    then show ?thesis by (simp add: bit_push_bit_iff)
  next
    case False
    have "b = take_bit 4 b"
      using assms(3,4) by (simp add: take_bit_int_eq_self)
    then have "\<not> bit b n"
      using False by (metis bit_take_bit_iff)
    then show ?thesis by simp
  qed
  have "push_bit 4 a AND b = 0"
    using disj by (simp add: bit_eq_iff bit_and_iff)
  then have "push_bit 4 a XOR b = push_bit 4 a + b"
    by (simp add: disjunctive_add_eq_xor)
  then have eq: "push_bit 4 a XOR b = 16 * a + b"
    by (simp add: push_bit_eq_mult)
  have "(word_of_int (push_bit 4 a XOR b) :: uint8_t) = push_bit 4 (word_of_int a) XOR word_of_int b"
    by (simp add: of_int_push_bit of_int_xor_eq)
  then have "push_bit 4 (word_of_int a :: uint8_t) XOR word_of_int b = word_of_int (16 * a + b)"
    by (simp only: eq)
  then have "uint (push_bit 4 (word_of_int a :: uint8_t) XOR word_of_int b)
      = uint (word_of_int (16 * a + b) :: uint8_t)"
    by (simp only:)
  also have "\<dots> = take_bit 8 (16 * a + b)"
    by (simp only: uint_word_of_int_eq) simp
  also have "\<dots> = 16 * a + b"
    using assms by (simp add: take_bit_int_eq_self)
  finally show ?thesis .
qed


lemma parse_key_short:
  assumes "line \<noteq> []" "list_all isxdigit line" "length line \<le> 72" "b < 36"
  shows "uint (parse_key line ! b) =
     16 * HEX2BIN (line ! ((2 * b) mod length line))
       + HEX2BIN (line ! ((2 * b + 1) mod length line))"
proof -
  have digit: "isxdigit (line ! (i mod length line))" for i
    using assms(1,2) by (simp add: list_all_length)
  have "parse_key line = fold (parse_step line 36) [0..<72] (replicate 36 0)"
    using assms(3) by (simp add: parse_key_def Let_def max_def)
  then have "parse_key line ! b =
      push_bit 4 (word_of_int (HEX2BIN (line ! ((2 * b) mod length line))))
        XOR word_of_int (HEX2BIN (line ! ((2 * b + 1) mod length line)))"
    using parse_prefix [of 72 line] assms(4) by simp
  then show ?thesis
    using HEX2BIN_range [OF digit [of "2 * b"]] HEX2BIN_range [OF digit [of "2 * b + 1"]]
    by (simp only: pack_nibbles)
qed

text \<open>
  Claim C7, with the buffer that the code has. A line of hexadecimal digits is
  accepted and parsed into the seed buffer, which has 36 bytes and so holds 72
  digits. For a line of at most 72 digits every byte holds two digits of the line
  repeated cyclically, digit \<open>2 * b\<close> in the high and digit \<open>2 * b + 1\<close> in the low
  half of byte \<open>b\<close>. For a line of 72 digits or more, a further digit, with index
  \<open>i\<close>, is XORed into byte \<open>(i / 2) % 36\<close>, shifted left by 4 when \<open>i\<close> is even
  and not shifted when it is odd.
\<close>

theorem C7_seed_packing:
  assumes "line \<noteq> []" "list_all isxdigit line"
  shows "get_input ((line @ [CHR 0x0A]) # rest) g = Inr (g\<lparr>arr_key := parse_key line\<rparr>)
       \<and> length (parse_key line) = 36
       \<and> (length line \<le> 72 \<longrightarrow>
            (\<forall>b<36. uint (parse_key line ! b) =
               16 * HEX2BIN (line ! ((2 * b) mod length line))
                 + HEX2BIN (line ! ((2 * b + 1) mod length line))))
       \<and> (72 \<le> length line \<longrightarrow>
            (\<forall>c. parse_key (line @ [c]) =
               (parse_key line)[(length line div 2) mod 36 :=
                  parse_key line ! ((length line div 2) mod 36)
                    XOR word_of_int (push_bit (if length line mod 2 \<noteq> 0 then 0 else 4)
                                       (HEX2BIN c))]))"
proof -
  have "parse_key (line @ [c]) =
      (parse_key line)[(length line div 2) mod 36 :=
         parse_key line ! ((length line div 2) mod 36)
           XOR word_of_int (push_bit (if length line mod 2 \<noteq> 0 then 0 else 4) (HEX2BIN c))]"
    if "72 \<le> length line" for c
    using parse_key_excess [OF that, of c] by (simp add: parse_step_def Let_def)
  then show ?thesis
    using get_input_seed [OF assms] parse_key_length parse_key_short [OF assms] by blast
qed

theorem C7_seed_packing_witness:
  "get_input [''573BE15A'' @ [CHR 0x0A]] keygen_init
     = Inr (keygen_init\<lparr>arr_key := parse_key ''573BE15A''\<rparr>)
   \<and> length (parse_key ''573BE15A'') = 36
   \<and> uint (parse_key ''573BE15A'' ! 0) = 0x57"
proof -
  have hyp: "''573BE15A'' \<noteq> []" "list_all isxdigit ''573BE15A''"
    by (simp_all add: isxdigit_def)
  note t = C7_seed_packing [OF hyp, of "[]" keygen_init]
  from t have "\<forall>b<36. uint (parse_key ''573BE15A'' ! b) =
      16 * HEX2BIN (''573BE15A'' ! ((2 * b) mod length ''573BE15A''))
        + HEX2BIN (''573BE15A'' ! ((2 * b + 1) mod length ''573BE15A''))"
    by simp
  from this [rule_format, of 0] have "uint (parse_key ''573BE15A'' ! 0) = 0x57"
    by (simp add: HEX2BIN_def isalpha_def)
  with t show ?thesis
    by simp
qed

lemma parse_key_74:
  "parse_key (replicate 73 CHR ''0'' @ ''F'') = 0x0F # replicate 35 0"
  by code_simp

text \<open>
  Claim C7 as stated fails: the buffer does not have 72 bytes, and in a line of 74
  digits the digit with index 73 is not XORed into byte \<open>73 % 72\<close>, which stays
  0, but into byte 0.
\<close>

theorem C7_buffer_of_36_bytes:
  "length (parse_key ''573BE15A'') \<noteq> 72
   \<and> parse_key (replicate 73 CHR ''0'' @ ''F'') ! (73 mod 72) = 0
   \<and> parse_key (replicate 73 CHR ''0'' @ ''F'') ! ((73 div 2) mod 36) = 0x0F"
  by (simp add: parse_key_length parse_key_74)

end
